theory Spec2Isabelle
  imports Main "HOL-Library.Char_ord" "HOL-Library.List_Lexorder" "HOL-Library.Code_Target_Nat"
begin

section \<open>JavaScript string primitives used by the bot\<close>

text \<open>
  Strings are \<^typ>\<open>string\<close> (lists of 8-bit characters). The functions below are the
  library primitives of JavaScript that \<^verbatim>\<open>index.js\<close> calls on strings:
  \<^verbatim>\<open>startsWith\<close>, \<^verbatim>\<open>includes\<close>, \<^verbatim>\<open>split\<close>, \<^verbatim>\<open>replace\<close> with a string pattern
  (first occurrence only), and the decimal numeral of a natural number.
\<close>

definition startsWith :: "string \<Rightarrow> string \<Rightarrow> bool" where
  "startsWith s p = (take (length p) s = p)"

definition endsWith :: "string \<Rightarrow> string \<Rightarrow> bool" where
  "endsWith s p = (length p \<le> length s \<and> drop (length s - length p) s = p)"


fun split_on :: "char \<Rightarrow> string \<Rightarrow> string list" where
  "split_on d [] = [[]]"
| "split_on d (c # cs) =
     (let r = split_on d cs
      in if c = d then [] # r else (c # hd r) # tl r)"

fun replace_first :: "string \<Rightarrow> string \<Rightarrow> string \<Rightarrow> string" where
  "replace_first [] pat rep = (if pat = [] then rep else [])"
| "replace_first (c # cs) pat rep =
     (if startsWith (c # cs) pat then rep @ drop (length pat) (c # cs)
      else c # replace_first cs pat rep)"

definition is_digit :: "char \<Rightarrow> bool" where
  "is_digit c = (CHR ''0'' \<le> c \<and> c \<le> CHR ''9'')"

definition digit_char :: "nat \<Rightarrow> char" where
  "digit_char d = char_of (of_char (CHR ''0'') + d)"

definition digit_val :: "char \<Rightarrow> nat" where
  "digit_val c = of_char c - of_char (CHR ''0'')"

function show_nat :: "nat \<Rightarrow> string" where
  "show_nat n = (if n < 10 then [digit_char n] else show_nat (n div 10) @ [digit_char (n mod 10)])"
  by pat_completeness auto
termination
  by (relation "measure id") auto

text \<open>The number that a run of decimal digits denotes.\<close>

definition decimal :: "string \<Rightarrow> nat" where
  "decimal ds = fold (\<lambda>c acc. acc * 10 + digit_val c) ds 0"

section \<open>JavaScript numbers\<close>

text \<open>
  A version number is a JavaScript number, that is an IEEE 754 double. The numbers that the
  artifact service computes are non-negative integers or \<^verbatim>\<open>Infinity\<close>: \<^verbatim>\<open>parseInt\<close> of a run
  of decimal digits, \<^verbatim>\<open>Math.max\<close> of such numbers, and such a number plus one. \<open>Num n\<close> is
  the double of value \<open>n\<close>. The order is the numeric one, \<^verbatim>\<open>Infinity\<close> on top.
\<close>

datatype js_number = Num nat | Infinity

instantiation js_number :: linorder
begin

fun less_eq_js_number :: "js_number \<Rightarrow> js_number \<Rightarrow> bool" where
  "less_eq_js_number (Num a) (Num b) = (a \<le> b)"
| "less_eq_js_number x Infinity = True"
| "less_eq_js_number Infinity (Num b) = False"

definition less_js_number :: "js_number \<Rightarrow> js_number \<Rightarrow> bool" where
  "less_js_number x y = (x \<le> y \<and> \<not> y \<le> x)"

instance
proof
  fix x y z :: js_number
  show "(x < y) = (x \<le> y \<and> \<not> y \<le> x)" by (simp add: less_js_number_def)
  show "x \<le> x" by (cases x) simp_all
  show "x \<le> y \<Longrightarrow> y \<le> z \<Longrightarrow> x \<le> z" by (cases x; cases y; cases z) simp_all
  show "x \<le> y \<Longrightarrow> y \<le> x \<Longrightarrow> x = y" by (cases x; cases y) simp_all
  show "x \<le> y \<or> y \<le> x" by (cases x; cases y) auto
qed

end

text \<open>The number of binary digits of a natural number.\<close>

function bitlen :: "nat \<Rightarrow> nat" where
  "bitlen n = (if n = 0 then 0 else Suc (bitlen (n div 2)))"
  by pat_completeness auto
termination
  by (relation "measure id") auto

text \<open>
  The double nearest to a natural number: the number itself below \<open>2^53\<close>; above, the 53
  leading binary digits, rounded to nearest with ties to the even significand; \<^verbatim>\<open>Infinity\<close>
  when the rounded value reaches \<open>2^1024\<close>.
\<close>

definition toDouble :: "nat \<Rightarrow> js_number" where
  "toDouble n =
     (if n < 2 ^ 53 then Num n
      else (let e = bitlen n - 53;
                q = n div 2 ^ e;
                r = n mod 2 ^ e;
                half = 2 ^ (e - 1);
                q' = (if half < r \<or> (r = half \<and> odd q) then q + 1 else q)
            in if 1024 < bitlen n \<or> (bitlen n = 1024 \<and> q' = 2 ^ 53) then Infinity
               else Num (q' * 2 ^ e)))"

text \<open>\<^verbatim>\<open>parseInt\<close> on a non-empty run of decimal digits (what the group \<^verbatim>\<open>(\d+)\<close> of the
  regular expression captures): the double nearest to the number the digits denote.\<close>

definition parseInt :: "string \<Rightarrow> js_number" where
  "parseInt ds = toDouble (decimal ds)"

text \<open>\<^verbatim>\<open>x + 1\<close> on doubles.\<close>

definition plusOne :: "js_number \<Rightarrow> js_number" where
  "plusOne x = (case x of Num n \<Rightarrow> toDouble (n + 1) | Infinity \<Rightarrow> Infinity)"

text \<open>\<^verbatim>\<open>Math.max(...versions)\<close> on a non-empty array, given as its first element and the
  rest. (Both callers test the length of the array first. The engine's limit on the number
  of arguments of one call is not modelled.)\<close>

definition mathMax :: "js_number \<Rightarrow> js_number list \<Rightarrow> js_number" where
  "mathMax v vs = fold max vs v"

text \<open>
  The text of a number in a template literal (\<^verbatim>\<open>Number.prototype.toString\<close>): the decimal
  numeral with the fewest significant digits that still denotes this double, the nearest
  one if there are several; written in full up to 21 digits and in exponent notation beyond.
  Below \<open>2^53\<close> it is the decimal numeral of the number. \<open>shortestDecimal x z\<close> looks for a
  multiple of \<open>10^z\<close> that rounds to \<open>x\<close>, for \<open>z\<close> going down.
\<close>

fun shortestDecimal :: "nat \<Rightarrow> nat \<Rightarrow> nat" where
  "shortestDecimal x 0 = x"
| "shortestDecimal x (Suc z) =
     (let p = 10 ^ Suc z;
          lo = (x div p) * p;
          hi = lo + p;
          okLo = (lo \<noteq> 0 \<and> toDouble lo = Num x);
          okHi = (toDouble hi = Num x)
      in if okLo \<and> okHi then (if x - lo \<le> hi - x then lo else hi)
         else if okLo then lo
         else if okHi then hi
         else shortestDecimal x z)"

definition numberToString :: "js_number \<Rightarrow> string" where
  "numberToString x =
     (case x of
        Infinity \<Rightarrow> ''Infinity''
      | Num n \<Rightarrow>
          (let ds = show_nat (shortestDecimal n (length (show_nat n)))
           in if length ds \<le> 21 then ds
              else (let sig = rev (dropWhile (\<lambda>c. c = CHR ''0'') (rev ds))
                    in (if length sig = 1 then sig else hd sig # CHR ''.'' # tl sig)
                       @ ''e+'' @ show_nat (length ds - 1))))"

section \<open>The object store (Google Cloud Storage bucket)\<close>

text \<open>
  A bucket is a finite list of named objects. The content of an object is either the JSON
  text of an artifact record (what \<^verbatim>\<open>saveArtifact\<close> writes) or any other bytes (what the
  backend runtime writes: raw image data). Two flags stand for the reachability of the
  storage service at the time of a call: \<open>online\<close> for the listing request
  (\<^verbatim>\<open>bucket.getFiles\<close>), \<open>objectsOnline\<close> for the requests on one object (\<^verbatim>\<open>exists\<close>,
  \<^verbatim>\<open>download\<close>, \<^verbatim>\<open>save\<close>). They are different requests, which need different permissions
  and fail separately. A request that is not answered throws, and each method below
  handles that throw the way its \<^verbatim>\<open>catch\<close> block does.
\<close>

text \<open>The \<open>data\<close> of a part or of an artifact record: a \<^verbatim>\<open>Buffer\<close> (the bot passes the
  downloaded bytes) or a string (base64 text). A \<^verbatim>\<open>Buffer\<close> is truthy even when empty; a
  string is truthy when it is not empty.\<close>

datatype js_data = Buffer string | Text string

record artifactData =
  ad_mimeType :: string
  ad_data :: "js_data option"
  ad_timestamp :: string
  ad_filename :: string

datatype blob = JsonArtifact artifactData | RawBytes string

record gcs_object =
  content :: blob
  contentType :: string
  customMetadata :: "(string \<times> string) list"

record bucket =
  objects :: "(string \<times> gcs_object) list"
  online :: bool
  objectsOnline :: bool

datatype store_error = StorageUnavailable

definition getFiles :: "bucket \<Rightarrow> string \<Rightarrow> store_error + string list" where
  "getFiles b prefix =
     (if online b then Inr (filter (\<lambda>n. startsWith n prefix) (map fst (objects b)))
      else Inl StorageUnavailable)"

definition file_exists :: "bucket \<Rightarrow> string \<Rightarrow> store_error + bool" where
  "file_exists b name =
     (if objectsOnline b then Inr (map_of (objects b) name \<noteq> None) else Inl StorageUnavailable)"

definition file_download :: "bucket \<Rightarrow> string \<Rightarrow> store_error + gcs_object" where
  "file_download b name =
     (if objectsOnline b then (case map_of (objects b) name of
                                 None \<Rightarrow> Inl StorageUnavailable
                               | Some obj \<Rightarrow> Inr obj)
      else Inl StorageUnavailable)"

definition file_save :: "bucket \<Rightarrow> string \<Rightarrow> gcs_object \<Rightarrow> store_error + bucket" where
  "file_save b name obj =
     (if objectsOnline b
      then Inr (b\<lparr>objects := (name, obj) # filter (\<lambda>(n, _). n \<noteq> name) (objects b)\<rparr>)
      else Inl StorageUnavailable)"

section \<open>GcsArtifactService\<close>

text \<open>An ADK part as the bot builds it: optional \<open>mimeType\<close>, optional \<open>data\<close>, optional
  \<open>inline_data\<close> with its own optional \<open>mime_type\<close> and \<open>data\<close>.\<close>

record part =
  p_mimeType :: "string option"
  p_data :: "js_data option"
  p_inline_data :: "(string option \<times> js_data option) option"

text \<open>JavaScript truthiness of an optional string (present and non-empty) and of an
  optional \<open>data\<close>.\<close>

definition truthy :: "string option \<Rightarrow> bool" where
  "truthy v = (case v of None \<Rightarrow> False | Some s \<Rightarrow> s \<noteq> [])"

definition truthyData :: "js_data option \<Rightarrow> bool" where
  "truthyData v = (case v of None \<Rightarrow> False | Some (Buffer bs) \<Rightarrow> True | Some (Text s) \<Rightarrow> s \<noteq> [])"

text \<open>\<^verbatim>\<open>part.inline_data?.mime_type\<close> and \<^verbatim>\<open>part.inline_data?.data\<close>.\<close>

definition inlineMimeType :: "part \<Rightarrow> string option" where
  "inlineMimeType p = (case p_inline_data p of None \<Rightarrow> None | Some i \<Rightarrow> fst i)"

definition inlineData :: "part \<Rightarrow> js_data option" where
  "inlineData p = (case p_inline_data p of None \<Rightarrow> None | Some i \<Rightarrow> snd i)"

text \<open>The default parameter \<^verbatim>\<open>sessionId = 'shared'\<close>: \<open>None\<close> is an omitted argument.\<close>

definition sessionOrShared :: "string option \<Rightarrow> string" where
  "sessionOrShared sessionId = (case sessionId of None \<Rightarrow> ''shared'' | Some s \<Rightarrow> s)"

definition getArtifactPath :: "string \<Rightarrow> string \<Rightarrow> string \<Rightarrow> string option \<Rightarrow> string" where
  "getArtifactPath appName userId filename sessionId =
     appName @ ''/'' @ userId @ ''/'' @ sessionOrShared sessionId @ ''/'' @ filename"

text \<open>The regular expression \<^verbatim>\<open>/\/v(\d+)$/\<close> followed by \<^verbatim>\<open>parseInt\<close>: the name must end
  in \<^verbatim>\<open>/v\<close> and a non-empty run of decimal digits.\<close>

definition version_of_name :: "string \<Rightarrow> js_number option" where
  "version_of_name name =
     (let ds = rev (takeWhile is_digit (rev name));
          rest = take (length name - length ds) name
      in if ds \<noteq> [] \<and> endsWith rest ''/v'' then Some (parseInt ds) else None)"

text \<open>\<^verbatim>\<open>listVersions\<close>: a listing that fails is caught and gives the empty array.\<close>

definition listVersions :: "bucket \<Rightarrow> string \<Rightarrow> string \<Rightarrow> string \<Rightarrow> string option \<Rightarrow> js_number list" where
  "listVersions b appName userId filename sessionId =
     (case getFiles b (getArtifactPath appName userId filename sessionId @ ''/v'') of
        Inl _ \<Rightarrow> []
      | Inr files \<Rightarrow> sort (List.map_filter version_of_name files))"

text \<open>The record that \<^verbatim>\<open>saveArtifact\<close> stores:
  \<^verbatim>\<open>part.mimeType || part.inline_data?.mime_type || 'application/octet-stream'\<close> and
  \<^verbatim>\<open>part.data || part.inline_data?.data\<close>.\<close>

definition artifactData_of_part :: "part \<Rightarrow> string \<Rightarrow> string \<Rightarrow> artifactData" where
  "artifactData_of_part p filename now =
     \<lparr> ad_mimeType =
         (if truthy (p_mimeType p) then the (p_mimeType p)
          else if truthy (inlineMimeType p) then the (inlineMimeType p)
          else ''application/octet-stream''),
       ad_data = (if truthyData (p_data p) then p_data p else inlineData p),
       ad_timestamp = now,
       ad_filename = filename \<rparr>"

text \<open>\<^verbatim>\<open>versions.length > 0 ? Math.max(...versions) + 1 : 1\<close>.\<close>

definition nextVersion :: "js_number list \<Rightarrow> js_number" where
  "nextVersion versions = (case versions of [] \<Rightarrow> Num 1 | v # vs \<Rightarrow> plusOne (mathMax v vs))"

text \<open>\<^verbatim>\<open>saveArtifact\<close>. \<open>now\<close> is the time stamp of the call. The listing cannot make the call
  fail (\<^verbatim>\<open>listVersions\<close> catches); a failed write is rethrown.\<close>

definition saveArtifact ::
  "bucket \<Rightarrow> string \<Rightarrow> string \<Rightarrow> string \<Rightarrow> string \<Rightarrow> part \<Rightarrow> string option
   \<Rightarrow> store_error + (js_number \<times> bucket)" where
  "saveArtifact b now appName userId filename p sessionId =
     (let artifactPath = getArtifactPath appName userId filename sessionId;
          ad = artifactData_of_part p filename now;
          versions = listVersions b appName userId filename sessionId;
          nv = nextVersion versions;
          versionedPath = artifactPath @ ''/v'' @ numberToString nv;
          obj = \<lparr> content = JsonArtifact ad,
                  contentType = ''application/json'',
                  customMetadata = [(''artifactVersion'', numberToString nv),
                                    (''originalMimeType'', ad_mimeType ad),
                                    (''filename'', filename)] \<rparr>
      in case file_save b versionedPath obj of
           Inl e \<Rightarrow> Inl e
         | Inr b' \<Rightarrow> Inr (nv, b'))"

text \<open>
  What \<^verbatim>\<open>JSON.parse(data.toString(), this.bufferJSONReviver)\<close> followed by the reads of
  \<^verbatim>\<open>.mimeType\<close> and \<^verbatim>\<open>.data\<close> gives on a stored content. On the text of an artifact record it
  gives the fields of the record back (the replacer and the reviver carry a \<^verbatim>\<open>Buffer\<close>
  through). On other bytes the outcome is the library's, a parameter of the model:
  \<open>json_fields bytes\<close> is \<open>None\<close> when the parse or the property read throws (no JSON text,
  the text \<^verbatim>\<open>null\<close>) and the two properties otherwise (both absent for \<^verbatim>\<open>{}\<close>).
\<close>

definition parsedFields ::
  "(string \<Rightarrow> (string option \<times> js_data option) option) \<Rightarrow> blob
   \<Rightarrow> (string option \<times> js_data option) option" where
  "parsedFields json_fields c =
     (case c of
        JsonArtifact ad \<Rightarrow> Some (Some (ad_mimeType ad), ad_data ad)
      | RawBytes bs \<Rightarrow> json_fields bs)"

text \<open>\<^verbatim>\<open>loadArtifact\<close>: the file name is used as given. A falsy \<open>version\<close> (absent, or 0)
  means the latest version. Every failure gives \<^verbatim>\<open>null\<close>.\<close>

definition loadArtifact ::
  "(string \<Rightarrow> (string option \<times> js_data option) option) \<Rightarrow> bucket \<Rightarrow> string \<Rightarrow> string
   \<Rightarrow> string \<Rightarrow> js_number option \<Rightarrow> string option \<Rightarrow> part option" where
  "loadArtifact json_fields b appName userId filename version sessionId =
     (let artifactPath = getArtifactPath appName userId filename sessionId;
          targetVersion =
            (if version \<noteq> None \<and> version \<noteq> Some (Num 0) then version
             else (case listVersions b appName userId filename sessionId of
                     [] \<Rightarrow> None
                   | v # vs \<Rightarrow> Some (mathMax v vs)))
      in case targetVersion of
           None \<Rightarrow> None
         | Some tv \<Rightarrow>
             (let versionedPath = artifactPath @ ''/v'' @ numberToString tv
              in case file_exists b versionedPath of
                   Inl _ \<Rightarrow> None
                 | Inr False \<Rightarrow> None
                 | Inr True \<Rightarrow>
                     (case file_download b versionedPath of
                        Inl _ \<Rightarrow> None
                      | Inr obj \<Rightarrow>
                          (case parsedFields json_fields (content obj) of
                             None \<Rightarrow> None
                           | Some (m, d) \<Rightarrow>
                               Some \<lparr> p_mimeType = m, p_data = d,
                                      p_inline_data = Some (m, d) \<rparr>))))"





record image_data =
  img_mimeType :: string
  img_data :: string



text \<open>\<^verbatim>\<open>listArtifactKeys\<close>: \<open>artifactsFolder\<close> is \<^verbatim>\<open>config.gcs.artifactsFolder\<close>. The
  JavaScript \<^verbatim>\<open>Set\<close> followed by \<^verbatim>\<open>Array.from(...).sort()\<close> is a duplicate-free list
  sorted by character codes.\<close>

definition keyOfObjectName :: "string \<Rightarrow> string \<Rightarrow> string option" where
  "keyOfObjectName userPath name =
     (let relativePath = drop (length userPath) name;
          pathParts = split_on (CHR ''/'') relativePath
      in if length pathParts \<ge> 2 \<and> startsWith (pathParts ! 1) ''v''
         then Some (pathParts ! 0) else None)"

definition listArtifactKeys :: "string \<Rightarrow> bucket \<Rightarrow> string \<Rightarrow> string \<Rightarrow> string list" where
  "listArtifactKeys artifactsFolder b appName userId =
     (let userPath = artifactsFolder @ ''/'' @ appName @ ''/'' @ userId @ ''/''
      in case getFiles b userPath of
           Inl _ \<Rightarrow> []
         | Inr files \<Rightarrow> sort (remdups (List.map_filter (keyOfObjectName userPath) files)))"

text \<open>A sequence of \<^verbatim>\<open>saveArtifact\<close> calls on one logical key, one after the other, with
  nothing else writing to the bucket in between; each call brings its own time stamp and
  part. The first failing call ends the sequence.\<close>

fun saveSequence ::
  "bucket \<Rightarrow> string \<Rightarrow> string \<Rightarrow> string \<Rightarrow> string option \<Rightarrow> (string \<times> part) list
   \<Rightarrow> store_error + (js_number list \<times> bucket)" where
  "saveSequence b appName userId filename sessionId [] = Inr ([], b)"
| "saveSequence b appName userId filename sessionId ((now, p) # calls) =
     (case saveArtifact b now appName userId filename p sessionId of
        Inl e \<Rightarrow> Inl e
      | Inr (v, b') \<Rightarrow>
          (case saveSequence b' appName userId filename sessionId calls of
             Inl e \<Rightarrow> Inl e
           | Inr (vs, b'') \<Rightarrow> Inr (v # vs, b'')))"

section \<open>The backend tool that loads an artifact by file name\<close>

text \<open>
  The bot's \<^verbatim>\<open>loadArtifact\<close> strips nothing from a file name. The stripping of version
  suffixes is done by the backend's Python tool \<^verbatim>\<open>upload_artifact_to_fal\<close>, whose code
  \<^verbatim>\<open>README.md\<close> quotes: the list \<^verbatim>\<open>possible_filenames\<close> starts with the file name as given;
  for each of the patterns \<^verbatim>\<open>r' v\d+$'\<close>, \<^verbatim>\<open>r'_v\d+$'\<close>, \<^verbatim>\<open>r' \(\d+\)$'\<close>, in this order,
  \<^verbatim>\<open>re.sub(pattern, '', filename)\<close> is appended when it differs from the file name; then
  \<^verbatim>\<open>tool_context.load_artifact\<close> is called on each entry in turn, inside \<^verbatim>\<open>try\<close>, and the loop
  ends at the first call that does not raise.

  Each pattern is a fixed lead, a non-empty run of digits and a fixed trail, anchored by
  \<^verbatim>\<open>$\<close>. In Python \<^verbatim>\<open>$\<close> matches at the end of the string and also just before a line feed
  that ends the string. (On 8-bit characters \<^verbatim>\<open>\d\<close> is the ten ASCII digits.) Since no lead
  ends in a digit, a pattern matches a string in at most one place.
\<close>

definition matchAtEnd :: "string \<Rightarrow> string \<Rightarrow> string \<Rightarrow> string option" where
  "matchAtEnd lead trail s =
     (if endsWith s trail then
        (let body = take (length s - length trail) s;
             ds = rev (takeWhile is_digit (rev body));
             rest = take (length body - length ds) body
         in if ds \<noteq> [] \<and> endsWith rest lead then Some (take (length rest - length lead) rest)
            else None)
      else None)"

definition re_sub :: "string \<times> string \<Rightarrow> string \<Rightarrow> string" where
  "re_sub pattern s =
     (case matchAtEnd (fst pattern) (snd pattern) s of
        Some cleaned \<Rightarrow> cleaned
      | None \<Rightarrow>
          (if s \<noteq> [] \<and> last s = CHR 0x0A then
             (case matchAtEnd (fst pattern) (snd pattern) (butlast s) of
                Some cleaned \<Rightarrow> cleaned @ [CHR 0x0A]
              | None \<Rightarrow> s)
           else s))"

definition version_patterns :: "(string \<times> string) list" where
  "version_patterns = [('' v'', []), (''_v'', []), ('' ('', '')'')]"

definition possible_filenames :: "string \<Rightarrow> string list" where
  "possible_filenames filename =
     filename # filter (\<lambda>cleaned. cleaned \<noteq> filename)
                       (map (\<lambda>pattern. re_sub pattern filename) version_patterns)"

text \<open>The loop over the candidates. The loader is the backend library's, a parameter:
  \<open>load name\<close> is \<open>None\<close> when the call raises and its value otherwise. The result is
  \<open>None\<close> when every call raised.\<close>

fun load_first :: "(string \<Rightarrow> 'a option) \<Rightarrow> string list \<Rightarrow> 'a option" where
  "load_first load [] = None"
| "load_first load (attempt_filename # rest) =
     (case load attempt_filename of
        Some artifact_part \<Rightarrow> Some artifact_part
      | None \<Rightarrow> load_first load rest)"

section \<open>The streaming response aggregator\<close>

text \<open>
  \<^verbatim>\<open>handleStreamingResponse\<close> registers three listeners on the response stream and a timer,
  and returns a promise. The model keeps the variables of the closure (\<open>buffer\<close>,
  \<open>fullResponse\<close>, \<open>hasStarted\<close>) and the promise (\<open>outcome\<close>, \<open>None\<close> while pending) in a
  record; each listener is a function on that record. A promise settles once: later calls of
  \<^verbatim>\<open>resolve\<close> or \<^verbatim>\<open>reject\<close> change nothing.

  An event of the stream, after \<^verbatim>\<open>JSON.parse\<close>: \<open>ev_parts\<close> is \<^verbatim>\<open>content.parts\<close> when both
  \<^verbatim>\<open>content\<close> and \<^verbatim>\<open>content.parts\<close> are truthy, \<open>ev_partial\<close> is the field \<^verbatim>\<open>partial\<close> when it
  is a boolean. \<^verbatim>\<open>JSON.parse\<close> is the parameter \<open>decode\<close>; \<open>None\<close> stands for a throw inside
  the \<^verbatim>\<open>try\<close> block, which the \<^verbatim>\<open>catch\<close> block swallows.
\<close>

record sse_part =
  sp_text :: "string option"
  sp_thoughtSignature :: bool

record sse_event =
  ev_parts :: "sse_part list option"
  ev_partial :: "bool option"

datatype sse_line = NotData | BlankData | Malformed | Event sse_event

datatype outcome = Resolved string | Rejected string

record stream_state =
  buffer :: string
  fullResponse :: string
  hasStarted :: bool
  outcome :: "outcome option"

definition initialStreamState :: stream_state where
  "initialStreamState = \<lparr> buffer = [], fullResponse = [], hasStarted = False, outcome = None \<rparr>"

definition settle :: "stream_state \<Rightarrow> outcome \<Rightarrow> stream_state" where
  "settle st r = (if outcome st = None then st\<lparr>outcome := Some r\<rparr> else st)"

definition is_space :: "char \<Rightarrow> bool" where
  "is_space c = (c \<in> set [CHR '' '', CHR 0x09, CHR 0x0A, CHR 0x0B, CHR 0x0C, CHR 0x0D])"

definition trim :: "string \<Rightarrow> string" where
  "trim s = rev (dropWhile is_space (rev (dropWhile is_space s)))"

definition classifyLine :: "(string \<Rightarrow> sse_event option) \<Rightarrow> string \<Rightarrow> sse_line" where
  "classifyLine decode line =
     (if startsWith line ''data: '' then
        (let jsonData = drop 6 line
         in if trim jsonData = [] then BlankData
            else (case decode jsonData of None \<Rightarrow> Malformed | Some e \<Rightarrow> Event e))
      else NotData)"

text \<open>\<^verbatim>\<open>parts.find(part => part.text && !part.thoughtSignature)\<close>, then its text.\<close>

definition textOfEvent :: "sse_event \<Rightarrow> string option" where
  "textOfEvent e =
     (case ev_parts e of
        None \<Rightarrow> None
      | Some ps \<Rightarrow>
          (case find (\<lambda>p. truthy (sp_text p) \<and> \<not> sp_thoughtSignature p) ps of
             None \<Rightarrow> None
           | Some p \<Rightarrow> sp_text p))"

text \<open>The \<^verbatim>\<open>for\<close> loop over the complete lines of one chunk. The \<^verbatim>\<open>return\<close> after
  \<^verbatim>\<open>resolve\<close> leaves the listener, so the remaining lines of the chunk are not read.\<close>

fun processLines :: "stream_state \<Rightarrow> sse_line list \<Rightarrow> stream_state" where
  "processLines st [] = st"
| "processLines st (Event e # ls) =
     (let st1 = (case textOfEvent e of
                   Some t \<Rightarrow> st\<lparr>fullResponse := t, hasStarted := True\<rparr>
                 | None \<Rightarrow> st)
      in if ev_partial e \<noteq> Some True \<and> fullResponse st1 \<noteq> []
         then settle st1 (Resolved (fullResponse st1))
         else processLines st1 ls)"
| "processLines st (NotData # ls) = processLines st ls"
| "processLines st (BlankData # ls) = processLines st ls"
| "processLines st (Malformed # ls) = processLines st ls"

definition onData :: "(string \<Rightarrow> sse_event option) \<Rightarrow> stream_state \<Rightarrow> string \<Rightarrow> stream_state" where
  "onData decode st chunk =
     (let lines = split_on (CHR 0x0A) (buffer st @ chunk)
      in processLines (st\<lparr>buffer := last lines\<rparr>) (map (classifyLine decode) (butlast lines)))"

definition incompleteMessage :: string where
  "incompleteMessage = ''I received your message, but the response was incomplete. Please try again.''"

definition timedOutMessage :: string where
  "timedOutMessage = ''Response timed out. Please try again with a shorter message.''"

definition onEnd :: "stream_state \<Rightarrow> stream_state" where
  "onEnd st =
     (if fullResponse st \<noteq> [] then settle st (Resolved (fullResponse st))
      else settle st (Resolved incompleteMessage))"

definition onError :: "stream_state \<Rightarrow> string \<Rightarrow> stream_state" where
  "onError st err = settle st (Rejected err)"

definition onTimeout :: "stream_state \<Rightarrow> stream_state" where
  "onTimeout st =
     (if fullResponse st \<noteq> [] then settle st (Resolved (fullResponse st))
      else settle st (Resolved timedOutMessage))"

text \<open>What the stream emits, and what the event loop runs: the listeners of the stream's
  events and, once, the timer's callback. The timer is set to twice \<^verbatim>\<open>config.adk.timeout\<close>.
  Stream events carry their arrival time in milliseconds after the call; those that arrive
  before the timer's delay has passed are handled before the timer fires.\<close>

datatype stream_event = Data string | End | Error string

datatype signal = FromStream stream_event | TimerFired

definition streamingTimeoutDelay :: "nat \<Rightarrow> nat" where
  "streamingTimeoutDelay adkTimeout = adkTimeout * 2"

definition schedule :: "nat \<Rightarrow> (nat \<times> stream_event) list \<Rightarrow> signal list" where
  "schedule delay evs =
     map (\<lambda>(t, e). FromStream e) (takeWhile (\<lambda>(t, e). t < delay) evs)
     @ [TimerFired]
     @ map (\<lambda>(t, e). FromStream e) (dropWhile (\<lambda>(t, e). t < delay) evs)"

fun handleSignal :: "(string \<Rightarrow> sse_event option) \<Rightarrow> stream_state \<Rightarrow> signal \<Rightarrow> stream_state" where
  "handleSignal decode st (FromStream (Data chunk)) = onData decode st chunk"
| "handleSignal decode st (FromStream End) = onEnd st"
| "handleSignal decode st (FromStream (Error err)) = onError st err"
| "handleSignal decode st TimerFired = onTimeout st"

definition runSignals :: "(string \<Rightarrow> sse_event option) \<Rightarrow> stream_state \<Rightarrow> signal list \<Rightarrow> stream_state" where
  "runSignals decode st sigs = foldl (handleSignal decode) st sigs"

definition handleStreamingResponse ::
  "(string \<Rightarrow> sse_event option) \<Rightarrow> nat \<Rightarrow> (nat \<times> stream_event) list \<Rightarrow> outcome option" where
  "handleStreamingResponse decode adkTimeout evs =
     outcome (runSignals decode initialStreamState (schedule (streamingTimeoutDelay adkTimeout) evs))"

text \<open>A stand-in for \<^verbatim>\<open>JSON.parse\<close> in the examples: \<^verbatim>\<open>P:<text>\<close> is an event marked
  \<^verbatim>\<open>partial: true\<close> with one text part, \<^verbatim>\<open>F:<text>\<close> one marked \<^verbatim>\<open>partial: false\<close>,
  \<^verbatim>\<open>U:<text>\<close> one with no \<^verbatim>\<open>partial\<close> field, \<^verbatim>\<open>N\<close> a final event with no content; anything
  else does not parse.\<close>

definition textEvent :: "bool option \<Rightarrow> string \<Rightarrow> sse_event" where
  "textEvent partial t =
     \<lparr> ev_parts = Some [\<lparr> sp_text = Some t, sp_thoughtSignature = False \<rparr>], ev_partial = partial \<rparr>"

definition decodeDemo :: "string \<Rightarrow> sse_event option" where
  "decodeDemo s =
     (if startsWith s ''P:'' then Some (textEvent (Some True) (drop 2 s))
      else if startsWith s ''F:'' then Some (textEvent (Some False) (drop 2 s))
      else if startsWith s ''U:'' then Some (textEvent None (drop 2 s))
      else if s = ''N'' then Some \<lparr> ev_parts = None, ev_partial = Some False \<rparr>
      else None)"

section \<open>UserSessionManager: the durable session mapping\<close>

text \<open>
  The session bucket holds one JSON file per user. Times are milliseconds. \<open>reachable\<close>
  plays the part \<open>online\<close> plays for the artifact bucket: on an unreachable store every call
  throws, and the \<^verbatim>\<open>catch\<close> blocks answer \<^verbatim>\<open>null\<close> or \<^verbatim>\<open>false\<close>.
\<close>

record session_info =
  si_userId :: string
  si_sessionId :: string
  si_createdAt :: nat
  si_lastActivity :: nat
  si_isNewUser :: "bool option"
  si_firstMessage :: "string option"

record session_store =
  files :: "(string \<times> session_info) list"
  reachable :: bool

text \<open>The object spread into the stored record (\<^verbatim>\<open>...sessionData\<close>): the fields it has
  replace the fields written before it.\<close>

record session_overrides =
  ov_userId :: "string option"
  ov_sessionId :: "string option"
  ov_createdAt :: "nat option"
  ov_lastActivity :: "nat option"
  ov_isNewUser :: "bool option"
  ov_firstMessage :: "string option"

definition overrides_of_info :: "session_info \<Rightarrow> session_overrides" where
  "overrides_of_info d =
     \<lparr> ov_userId = Some (si_userId d), ov_sessionId = Some (si_sessionId d),
       ov_createdAt = Some (si_createdAt d), ov_lastActivity = Some (si_lastActivity d),
       ov_isNewUser = si_isNewUser d, ov_firstMessage = si_firstMessage d \<rparr>"

definition is_alnum :: "char \<Rightarrow> bool" where
  "is_alnum c = ((CHR ''a'' \<le> c \<and> c \<le> CHR ''z'') \<or> (CHR ''A'' \<le> c \<and> c \<le> CHR ''Z'')
                 \<or> (CHR ''0'' \<le> c \<and> c \<le> CHR ''9''))"

definition getSessionFilePath :: "string \<Rightarrow> string" where
  "getSessionFilePath userId =
     ''user_sessions/''
     @ map (\<lambda>c. if is_alnum c \<or> c = CHR ''@'' \<or> c = CHR ''.'' then c else CHR ''_'') userId
     @ ''/session.json''"

definition getUserSession :: "session_store \<Rightarrow> string \<Rightarrow> session_info option" where
  "getUserSession ss userId =
     (if reachable ss then map_of (files ss) (getSessionFilePath userId) else None)"

definition storeUserSession ::
  "session_store \<Rightarrow> nat \<Rightarrow> string \<Rightarrow> string \<Rightarrow> session_overrides \<Rightarrow> bool \<times> session_store" where
  "storeUserSession ss now userId sessionId sessionData =
     (let filePath = getSessionFilePath userId;
          sessionInfo =
            \<lparr> si_userId = (case ov_userId sessionData of Some v \<Rightarrow> v | None \<Rightarrow> userId),
              si_sessionId = (case ov_sessionId sessionData of Some v \<Rightarrow> v | None \<Rightarrow> sessionId),
              si_createdAt = (case ov_createdAt sessionData of Some v \<Rightarrow> v | None \<Rightarrow> now),
              si_lastActivity = (case ov_lastActivity sessionData of Some v \<Rightarrow> v | None \<Rightarrow> now),
              si_isNewUser = ov_isNewUser sessionData,
              si_firstMessage = ov_firstMessage sessionData \<rparr>
      in if reachable ss
         then (True, ss\<lparr>files := (filePath, sessionInfo)
                              # filter (\<lambda>(n, _). n \<noteq> filePath) (files ss)\<rparr>)
         else (False, ss))"

definition updateUserActivity :: "session_store \<Rightarrow> nat \<Rightarrow> string \<Rightarrow> session_store" where
  "updateUserActivity ss now userId =
     (case getUserSession ss userId of
        None \<Rightarrow> ss
      | Some sessionData \<Rightarrow>
          snd (storeUserSession ss now userId (si_sessionId sessionData)
                 (overrides_of_info (sessionData\<lparr>si_lastActivity := now\<rparr>))))"

section \<open>WhatsAppBot: sessions and the turn dispatcher\<close>

text \<open>
  The backend is outside the program. \<open>createReply k userId\<close> is the answer to the
  \<open>k\<close>-th session-creation request and \<open>runReply k payload\<close> the answer to the \<open>k\<close>-th
  \<^verbatim>\<open>/run\<close> request: an HTTP status with its status text and body, or a failure of the
  request itself. The bot's state counts the requests made so far. \<open>outbox\<close> lists the
  texts handed to \<^verbatim>\<open>sendMessage\<close>.
\<close>

datatype create_reply = CreateStatus nat "string option" | CreateThrows

datatype throw_kind = HttpError nat string | ConnRefused | ConnAborted | OtherError

datatype 'd run_reply = RunStatus nat string 'd | RunThrows throw_kind

record run_payload =
  pl_appName :: string
  pl_userId :: string
  pl_sessionId :: string
  pl_text :: string
  pl_media :: "(string \<times> string) list"
  pl_streaming :: bool

record session =
  s_sessionId :: string
  s_userId :: string
  s_createdAt :: nat
  s_lastActivity :: nat
  s_isReturningUser :: bool

record world =
  activeSessions :: "string \<rightharpoonup> session"
  sessionStore :: session_store
  creates :: nat
  submits :: nat
  outbox :: "(string \<times> string) list"

datatype reply = TextReply string | MultiReply string "image_data list"

record 'd backend =
  appName :: string
  createReply :: "nat \<Rightarrow> string \<Rightarrow> create_reply"
  runReply :: "nat \<Rightarrow> run_payload \<Rightarrow> 'd run_reply"
  handleResponse :: "'d \<Rightarrow> string \<Rightarrow> string \<Rightarrow> throw_kind + reply"

text \<open>\<open>handleResponse data jid sessionId\<close> is what \<^verbatim>\<open>sendToADK\<close> does with the body of a 200
  response: \<^verbatim>\<open>handleNonStreamingResponse\<close> in the first \<^verbatim>\<open>index.js\<close>,
  \<^verbatim>\<open>handleStreamingResponse\<close> in the second; \<open>Inl\<close> is a rejection, which the \<^verbatim>\<open>catch\<close>
  block of \<^verbatim>\<open>sendToADK\<close> turns into a message.\<close>

definition sendMessage :: "world \<Rightarrow> string \<Rightarrow> string \<Rightarrow> world" where
  "sendMessage w jid text = w\<lparr>outbox := outbox w @ [(jid, text)]\<rparr>"

definition createADKSession :: "'d backend \<Rightarrow> world \<Rightarrow> string \<Rightarrow> string option \<times> world" where
  "createADKSession env w userId =
     (let w' = w\<lparr>creates := creates w + 1\<rparr>
      in case createReply env (creates w) userId of
           CreateThrows \<Rightarrow> (None, w')
         | CreateStatus status ident \<Rightarrow>
             if status = 200 \<and> truthy ident then (ident, w') else (None, w'))"

definition cannotCreateMessage :: string where
  "cannotCreateMessage = ''Sorry, I'' @ [CHR 0x27] @ ''m unable to create a new conversation session right now. Please try again later.''"

text \<open>The block of \<^verbatim>\<open>handleIncomingMessages\<close> that gets or creates the session of a user
  (the spec's \<open>resolveSession\<close>). \<open>None\<close>: no session could be created, the apology was sent
  and the handler returned.\<close>

definition resolveSession ::
  "'d backend \<Rightarrow> world \<Rightarrow> nat \<Rightarrow> string \<Rightarrow> string option \<Rightarrow> session option \<times> world" where
  "resolveSession env w now userId messageText =
     (case activeSessions w userId of
        Some session \<Rightarrow>
          (let session' = session\<lparr>s_lastActivity := now\<rparr>
           in (Some session',
               w\<lparr>activeSessions := (activeSessions w)(userId \<mapsto> session'),
                  sessionStore := updateUserActivity (sessionStore w) now userId\<rparr>))
      | None \<Rightarrow>
          (case getUserSession (sessionStore w) userId of
             Some existingSession \<Rightarrow>
               (let session = \<lparr> s_sessionId = si_sessionId existingSession,
                                 s_userId = userId,
                                 s_createdAt = si_createdAt existingSession,
                                 s_lastActivity = now,
                                 s_isReturningUser = True \<rparr>
                in (Some session,
                    w\<lparr>activeSessions := (activeSessions w)(userId \<mapsto> session),
                       sessionStore := updateUserActivity (sessionStore w) now userId\<rparr>))
           | None \<Rightarrow>
               (case createADKSession env w userId of
                  (None, w1) \<Rightarrow> (None, sendMessage w1 userId cannotCreateMessage)
                | (Some adkSessionId, w1) \<Rightarrow>
                    (let session = \<lparr> s_sessionId = adkSessionId,
                                      s_userId = userId,
                                      s_createdAt = now,
                                      s_lastActivity = now,
                                      s_isReturningUser = False \<rparr>;
                         stored = storeUserSession (sessionStore w1) now userId adkSessionId
                                    \<lparr> ov_userId = None, ov_sessionId = None,
                                      ov_createdAt = None, ov_lastActivity = None,
                                      ov_isNewUser = Some True,
                                      ov_firstMessage =
                                        Some (if truthy messageText then the messageText
                                              else ''[media]'') \<rparr>
                     in (Some session,
                         w1\<lparr>activeSessions := (activeSessions w1)(userId \<mapsto> session),
                            sessionStore := snd stored\<rparr>)))))"


definition serviceIssuesMessage :: string where
  "serviceIssuesMessage = ''I apologize, but the AI service is currently experiencing issues. The development team has been notified. Please try again later.''"

definition unexpectedStatusMessage :: string where
  "unexpectedStatusMessage = ''I received your message, but the AI service returned an unexpected response. Please try again.''"

definition catchMessage :: "throw_kind \<Rightarrow> string" where
  "catchMessage e =
     (case e of
        HttpError status statusText \<Rightarrow>
          ''Sorry, I encountered an error: '' @ show_nat status @ '' '' @ statusText
      | ConnRefused \<Rightarrow> ''Sorry, the AI service is currently unavailable. Please try again later.''
      | ConnAborted \<Rightarrow> ''Sorry, the request timed out. Please try again with a shorter message.''
      | OtherError \<Rightarrow> ''Sorry, I encountered an unexpected error. Please try again.'')"

text \<open>
  \<^verbatim>\<open>sendToADK\<close> calls itself after a 500 answer and a successful session creation, with no
  bound. The first argument of the model is fuel: one unit per request, \<open>None\<close> when the
  fuel runs out before the function returns. A status outside 200..599 fails axios'
  \<^verbatim>\<open>validateStatus\<close> and arrives in the \<^verbatim>\<open>catch\<close> block as an error with a response.
\<close>

fun sendToADK ::
  "nat \<Rightarrow> 'd backend \<Rightarrow> world \<Rightarrow> string \<Rightarrow> string \<Rightarrow> string \<Rightarrow> string \<Rightarrow> (string \<times> string) list
   \<Rightarrow> (reply \<times> world) option" where
  "sendToADK 0 env w message sessionId userId jid mediaParts = None"
| "sendToADK (Suc fuel) env w message sessionId userId jid mediaParts =
     (let payload = \<lparr> pl_appName = appName env, pl_userId = userId, pl_sessionId = sessionId,
                       pl_text = message, pl_media = mediaParts, pl_streaming = False \<rparr>;
          w1 = w\<lparr>submits := submits w + 1\<rparr>
      in case runReply env (submits w) payload of
           RunThrows e \<Rightarrow> Some (TextReply (catchMessage e), w1)
         | RunStatus status statusText body \<Rightarrow>
             if \<not> (200 \<le> status \<and> status < 600)
             then Some (TextReply (catchMessage (HttpError status statusText)), w1)
             else if status = 500 then
               (case createADKSession env w1 userId of
                  (Some newSessionId, w2) \<Rightarrow>
                    sendToADK fuel env
                      (w2\<lparr>activeSessions :=
                             (case activeSessions w2 userId of
                                None \<Rightarrow> activeSessions w2
                              | Some session \<Rightarrow>
                                  (activeSessions w2)
                                    (userId \<mapsto> session\<lparr>s_sessionId := newSessionId\<rparr>))\<rparr>)
                      message newSessionId userId jid mediaParts
                | (None, w2) \<Rightarrow> Some (TextReply serviceIssuesMessage, w2))
             else if status = 200 then
               (case handleResponse env body jid sessionId of
                  Inl e \<Rightarrow> Some (TextReply (catchMessage e), w1)
                | Inr r \<Rightarrow> Some (r, w1))
             else Some (TextReply unexpectedStatusMessage, w1))"

section \<open>MediaHandler: normalizing an inbound attachment\<close>

text \<open>
  A WhatsApp message has up to five media slots; each may carry a MIME type, the document
  slots also a file name. The libraries the handler calls are parameters: \<open>sniffMime\<close> is
  \<^verbatim>\<open>fileTypeFromBuffer\<close>, \<open>readWorkbook\<close> is \<^verbatim>\<open>XLSX.read\<close> followed by \<^verbatim>\<open>sheet_to_csv\<close> on each
  sheet (the sheets in workbook order, each with its name and its CSV text; \<open>None\<close> when the
  library throws), \<open>extractRawText\<close> is mammoth's, \<open>toBase64\<close> is \<^verbatim>\<open>Buffer.toString('base64')\<close>.
  The downloaded buffer is an input (\<open>None\<close> when the download throws), and so is the
  random token of a generated file name.
\<close>

record media_slot =
  ms_mimetype :: "string option"
  ms_fileName :: "string option"

record wa_message =
  wm_imageMessage :: "media_slot option"
  wm_videoMessage :: "media_slot option"
  wm_audioMessage :: "media_slot option"
  wm_documentMessage :: "media_slot option"
  wm_documentWithCaptionMessage :: "media_slot option"

record media_lib =
  sniffMime :: "string \<Rightarrow> string option"
  readWorkbook :: "string \<Rightarrow> (string \<times> string) list option"
  extractRawText :: "string \<Rightarrow> string option"
  toBase64 :: "string \<Rightarrow> string"

datatype media_error =
  DownloadFailed | XlsxConversionFailed | DocxConversionFailed | SaveFailed store_error

record media_result =
  mr_filename :: string
  mr_mimeType :: string
  mr_version :: js_number
  mr_part :: part
  mr_converted :: "bool option"
  mr_originalFormat :: "string option"

definition xlsxMime :: string where
  "xlsxMime = ''application/vnd.openxmlformats-officedocument.spreadsheetml.sheet''"

definition docxMime :: string where
  "docxMime = ''application/vnd.openxmlformats-officedocument.wordprocessingml.document''"

text \<open>
  \<^verbatim>\<open>mimeToExt[mimeType] || '.bin'\<close>. The table is a plain object, so a key that names a
  property of \<^verbatim>\<open>Object.prototype\<close> finds that property, which is truthy: a built-in function,
  or for \<^verbatim>\<open>__proto__\<close> the prototype itself. The only use of the result is the template
  literal of \<^verbatim>\<open>generateRandomFilename\<close>; \<open>objectPrototypeText\<close> is the text such a property
  has there.
\<close>

definition objectPrototypeText :: "string \<Rightarrow> string option" where
  "objectPrototypeText key =
     (if key = ''__proto__'' then Some ''[object Object]''
      else if key = ''constructor'' then Some ''function Object() { [native code] }''
      else if key \<in> set [''toString'', ''toLocaleString'', ''valueOf'', ''hasOwnProperty'',
                            ''isPrototypeOf'', ''propertyIsEnumerable'', ''__defineGetter__'',
                            ''__defineSetter__'', ''__lookupGetter__'', ''__lookupSetter__'']
      then Some (''function '' @ key @ ''() { [native code] }'')
      else None)"

definition getExtensionFromMimeType :: "string \<Rightarrow> string" where
  "getExtensionFromMimeType mimeType =
     (case map_of
        [(''image/jpeg'', ''.jpg''), (''image/png'', ''.png''), (''image/gif'', ''.gif''),
         (''image/webp'', ''.webp''), (''audio/mpeg'', ''.mp3''), (''audio/ogg'', ''.ogg''),
         (''audio/wav'', ''.wav''), (''audio/mp4'', ''.m4a''), (''video/mp4'', ''.mp4''),
         (''video/quicktime'', ''.mov''), (''video/x-msvideo'', ''.avi''),
         (''application/pdf'', ''.pdf''), (''text/plain'', ''.txt''),
         (docxMime, ''.docx''), (xlsxMime, ''.xlsx'')] mimeType of
        Some ext \<Rightarrow> ext
      | None \<Rightarrow>
          (case objectPrototypeText mimeType of
             Some inherited \<Rightarrow> inherited
           | None \<Rightarrow> ''.bin''))"

definition generateRandomFilename :: "string \<Rightarrow> string \<Rightarrow> string" where
  "generateRandomFilename uuid mimeType = ''media_'' @ uuid @ getExtensionFromMimeType mimeType"

definition sheetHeader :: "nat \<Rightarrow> string \<Rightarrow> string" where
  "sheetHeader index sheetName =
     [CHR 0x0A] @ ''=== Sheet '' @ show_nat (index + 1) @ '': '' @ sheetName @ '' ==='' @ [CHR 0x0A]"

fun sheetsText :: "nat \<Rightarrow> (string \<times> string) list \<Rightarrow> string" where
  "sheetsText index [] = []"
| "sheetsText index ((sheetName, csvData) # sheets) =
     sheetHeader index sheetName @ csvData @ [CHR 0x0A] @ sheetsText (index + 1) sheets"

definition convertXlsxToText :: "media_lib \<Rightarrow> string \<Rightarrow> media_error + string" where
  "convertXlsxToText lib buf =
     (case readWorkbook lib buf of
        None \<Rightarrow> Inl XlsxConversionFailed
      | Some sheets \<Rightarrow> Inr (sheetsText 0 sheets))"

definition convertDocxToText :: "media_lib \<Rightarrow> string \<Rightarrow> media_error + string" where
  "convertDocxToText lib buf =
     (case extractRawText lib buf of
        None \<Rightarrow> Inl DocxConversionFailed
      | Some t \<Rightarrow> Inr t)"

text \<open>\<^verbatim>\<open>a || b || ...\<close> on optional strings: the first truthy one.\<close>

fun firstTruthy :: "string option list \<Rightarrow> string option" where
  "firstTruthy [] = None"
| "firstTruthy (v # vs) = (if truthy v then v else firstTruthy vs)"

definition slotMime :: "media_slot option \<Rightarrow> string option" where
  "slotMime slot = (case slot of None \<Rightarrow> None | Some m \<Rightarrow> ms_mimetype m)"

definition slotFileName :: "media_slot option \<Rightarrow> string option" where
  "slotFileName slot = (case slot of None \<Rightarrow> None | Some m \<Rightarrow> ms_fileName m)"

definition textPart :: "media_lib \<Rightarrow> string \<Rightarrow> part" where
  "textPart lib textContent =
     \<lparr> p_mimeType = Some ''text/plain'', p_data = Some (Buffer textContent),
       p_inline_data = Some (Some ''text/plain'', Some (Text (toBase64 lib textContent))) \<rparr>"

definition savedAs ::
  "bucket \<Rightarrow> string \<Rightarrow> string \<Rightarrow> string \<Rightarrow> string \<Rightarrow> string \<Rightarrow> part \<Rightarrow> string option
   \<Rightarrow> bool option \<Rightarrow> string option \<Rightarrow> media_error + (media_result \<times> bucket)" where
  "savedAs b now adkAppName userId filename mimeType p sessionId converted originalFormat =
     (case saveArtifact b now adkAppName userId filename p sessionId of
        Inl e \<Rightarrow> Inl (SaveFailed e)
      | Inr (version, b') \<Rightarrow>
          Inr (\<lparr> mr_filename = filename, mr_mimeType = mimeType, mr_version = version,
                 mr_part = p, mr_converted = converted, mr_originalFormat = originalFormat \<rparr>,
               b'))"

definition resolveMimeType :: "media_lib \<Rightarrow> wa_message \<Rightarrow> string \<Rightarrow> string" where
  "resolveMimeType lib message buf =
     (let declared = firstTruthy [slotMime (wm_imageMessage message),
                                  slotMime (wm_videoMessage message),
                                  slotMime (wm_audioMessage message),
                                  slotMime (wm_documentMessage message),
                                  slotMime (wm_documentWithCaptionMessage message)]
      in if truthy declared then the declared
         else if truthy (sniffMime lib buf) then the (sniffMime lib buf)
         else ''application/octet-stream'')"

definition resolveFilename :: "wa_message \<Rightarrow> string \<Rightarrow> string \<Rightarrow> string" where
  "resolveFilename message uuid mimeType =
     (let named = firstTruthy [slotFileName (wm_documentMessage message),
                               slotFileName (wm_documentWithCaptionMessage message)]
      in if truthy named then the named else generateRandomFilename uuid mimeType)"

definition processMediaMessage ::
  "media_lib \<Rightarrow> bucket \<Rightarrow> string \<Rightarrow> string \<Rightarrow> wa_message \<Rightarrow> string option \<Rightarrow> string
   \<Rightarrow> string \<Rightarrow> string option \<Rightarrow> media_error + (media_result \<times> bucket)" where
  "processMediaMessage lib b now adkAppName message downloaded uuid userId sessionId =
     (case downloaded of
        None \<Rightarrow> Inl DownloadFailed
      | Some buf \<Rightarrow>
          (let mimeType = resolveMimeType lib message buf;
               filename = resolveFilename message uuid mimeType
           in if mimeType = xlsxMime then
                (case convertXlsxToText lib buf of
                   Inl e \<Rightarrow> Inl e
                 | Inr textContent \<Rightarrow>
                     savedAs b now adkAppName userId (replace_first filename ''.xlsx'' ''.txt'')
                       ''text/plain'' (textPart lib textContent) sessionId (Some True) (Some ''XLSX''))
              else if mimeType = docxMime then
                (case convertDocxToText lib buf of
                   Inl e \<Rightarrow> Inl e
                 | Inr textContent \<Rightarrow>
                     savedAs b now adkAppName userId (replace_first filename ''.docx'' ''.txt'')
                       ''text/plain'' (textPart lib textContent) sessionId (Some True) (Some ''DOCX''))
              else
                savedAs b now adkAppName userId filename mimeType
                  \<lparr> p_mimeType = Some mimeType, p_data = Some (Buffer buf),
                    p_inline_data = Some (Some mimeType, Some (Text (toBase64 lib buf))) \<rparr>
                  sessionId None None))"

section \<open>Vocabulary of the claims and example data\<close>

text \<open>Example data for the artifact store: the empty reachable store, a part, and a store
  with one session-scoped object whose stored content type and metadata contradict its
  file name.\<close>

definition store0 :: bucket where
  "store0 = \<lparr> objects = [], online = True, objectsOnline = True \<rparr>"

definition part0 :: part where
  "part0 = \<lparr> p_mimeType = Some ''image/png'', p_data = Some (Buffer ''abc''), p_inline_data = None \<rparr>"


text \<open>Example data: a part as the bot builds it from downloaded bytes (the \<open>data\<close> a
  \<^verbatim>\<open>Buffer\<close>, the inline data a base64 text), three calls that save different bytes, and a
  stand-in for the JSON parser that rejects every text.\<close>

definition pdfPart :: "string \<Rightarrow> part" where
  "pdfPart bytes =
     \<lparr> p_mimeType = Some ''application/pdf'', p_data = Some (Buffer bytes),
       p_inline_data = Some (Some ''application/pdf'', Some (Text (''base64:'' @ bytes))) \<rparr>"

definition threeSaves :: "(string \<times> part) list" where
  "threeSaves = [(''t1'', pdfPart ''one''), (''t2'', pdfPart ''two''), (''t3'', pdfPart ''three'')]"

definition noJson :: "string \<Rightarrow> (string option \<times> js_data option) option" where
  "noJson bytes = None"

text \<open>
  The vocabulary of the claims on versions, in terms of the names of the objects in the
  bucket. \<open>keyPath\<close> is the physical path of a logical key,
  \<^verbatim>\<open>{appName}/{userId}/{sessionId}/{filename}\<close>, with the session \<^verbatim>\<open>shared\<close> when none is
  given. The existing versions of a path \<open>P\<close> are the numbers \<open>N\<close> for which the bucket
  holds an object whose name starts with \<open>P/v\<close> and ends in \<open>/vN\<close>, \<open>N\<close> a decimal numeral.
  \<open>greatestVersion b P m\<close>: \<open>m\<close> is the greatest existing version, or 0 when there is
  none.
\<close>

definition keyPath :: "string \<Rightarrow> string \<Rightarrow> string option \<Rightarrow> string \<Rightarrow> string" where
  "keyPath a u s f =
     a @ ''/'' @ u @ ''/'' @ (case s of None \<Rightarrow> ''shared'' | Some sid \<Rightarrow> sid) @ ''/'' @ f"

definition existingVersions :: "bucket \<Rightarrow> string \<Rightarrow> nat set" where
  "existingVersions b P =
     {decimal ds | q ds. ds \<noteq> [] \<and> list_all is_digit ds
                         \<and> (q @ ''/v'' @ ds) \<in> fst ` set (objects b)
                         \<and> startsWith (q @ ''/v'' @ ds) (P @ ''/v'')}"

definition greatestVersion :: "bucket \<Rightarrow> string \<Rightarrow> nat \<Rightarrow> bool" where
  "greatestVersion b P m =
     ((\<forall>v \<in> existingVersions b P. v \<le> m) \<and> (m = 0 \<or> m \<in> existingVersions b P))"

text \<open>The object that the save of a part under file name \<open>f\<close> at time \<open>now\<close> stores as
  version \<open>n\<close>, and the part that a load gives back for a saved part: its MIME type is the
  first truthy one of the part's, the inline one and \<^verbatim>\<open>application/octet-stream\<close>; its data
  is the part's when truthy and the inline data otherwise; the inline fields repeat
  both.\<close>

definition storedObject :: "string \<Rightarrow> string \<times> part \<Rightarrow> nat \<Rightarrow> gcs_object" where
  "storedObject f call n =
     \<lparr> content = JsonArtifact (artifactData_of_part (snd call) f (fst call)),
       contentType = ''application/json'',
       customMetadata = [(''artifactVersion'', show_nat n),
                         (''originalMimeType'', ad_mimeType (artifactData_of_part (snd call) f (fst call))),
                         (''filename'', f)] \<rparr>"

definition loadedPart :: "part \<Rightarrow> part" where
  "loadedPart p =
     (let m = firstTruthy [p_mimeType p, inlineMimeType p, Some ''application/octet-stream''];
          d = (case p_data p of
                 Some (Buffer bs) \<Rightarrow> Some (Buffer bs)
               | Some (Text t) \<Rightarrow> if t \<noteq> [] then Some (Text t) else inlineData p
               | None \<Rightarrow> inlineData p)
      in \<lparr> p_mimeType = m, p_data = d, p_inline_data = Some (m, d) \<rparr>)"

text \<open>A store with one artifact under the legacy flat convention (inside the artifacts
  folder) and two under the session-scoped convention: one written by the backend at
  version 0, one at the path \<^verbatim>\<open>saveArtifact\<close> writes.\<close>

definition store_mixed :: bucket where
  "store_mixed =
     \<lparr> objects = [(''artifacts/app/u1/report.pdf/v1'',
                   \<lparr> content = RawBytes ''pdf'', contentType = ''application/json'', customMetadata = [] \<rparr>),
                  (''app/u1/s1/photo.png/0'',
                   \<lparr> content = RawBytes ''png'', contentType = ''image/png'', customMetadata = [] \<rparr>),
                  (''app/u1/s1/chart.png/v1'',
                   \<lparr> content = RawBytes ''png'', contentType = ''application/json'', customMetadata = [] \<rparr>)],
       online = True, objectsOnline = True \<rparr>"

text \<open>The vocabulary of the claims: the non-empty text a line carries, whether a line is a
  final event (one not marked \<^verbatim>\<open>partial: true\<close>), the text of the latest line carrying one
  (\<open>fr\<close> when there is none), and the complete lines of a text.\<close>

definition lineText :: "sse_line \<Rightarrow> string option" where
  "lineText l = (case l of Event e \<Rightarrow> textOfEvent e | _ \<Rightarrow> None)"

definition lineFinal :: "sse_line \<Rightarrow> bool" where
  "lineFinal l = (case l of Event e \<Rightarrow> ev_partial e \<noteq> Some True | _ \<Rightarrow> False)"

definition latestText :: "string \<Rightarrow> sse_line list \<Rightarrow> string" where
  "latestText fr ls = (case List.map_filter lineText ls of [] \<Rightarrow> fr | t # ts \<Rightarrow> last (t # ts))"

text \<open>Invariant: a resolution is never the empty string, and the flag hasStarted says
  whether the running text is non-empty.\<close>

definition streamInv :: "stream_state \<Rightarrow> bool" where
  "streamInv st = (outcome st \<noteq> Some (Resolved []) \<and> (hasStarted st \<longleftrightarrow> fullResponse st \<noteq> []))"

definition completeLines :: "(string \<Rightarrow> sse_event option) \<Rightarrow> string \<Rightarrow> sse_line list" where
  "completeLines decode text = map (classifyLine decode) (butlast (split_on (CHR 0x0A) text))"

text \<open>Example data: a user, a bot that has not seen the user, a bot that holds session
  \<^verbatim>\<open>session-1\<close> of the user in memory and in the session bucket, and a backend that answers
  500 to the first \<open>n\<close> requests and 200 afterwards, and issues the sessions
  \<^verbatim>\<open>session-2\<close>, \<^verbatim>\<open>session-3\<close>, ...\<close>

definition user0 :: string where
  "user0 = ''6591234567@s.whatsapp.net''"


definition worldCached :: world where
  "worldCached =
     \<lparr> activeSessions =
         [user0 \<mapsto> \<lparr> s_sessionId = ''session-1'', s_userId = user0, s_createdAt = 1000,
                       s_lastActivity = 1000, s_isReturningUser = False \<rparr>],
       sessionStore =
         \<lparr> files = [(getSessionFilePath user0,
                      \<lparr> si_userId = user0, si_sessionId = ''session-1'', si_createdAt = 1000,
                        si_lastActivity = 1000, si_isNewUser = Some True,
                        si_firstMessage = Some ''Hi'' \<rparr>)],
           reachable = True \<rparr>,
       creates = 0, submits = 0, outbox = [] \<rparr>"

definition backendFaulting :: "nat \<Rightarrow> unit backend" where
  "backendFaulting n =
     \<lparr> appName = ''app'',
       createReply = (\<lambda>k u. CreateStatus 200 (Some (''session-'' @ show_nat (k + 2)))),
       runReply = (\<lambda>k p. if k < n then RunStatus 500 ''Internal Server Error'' ()
                           else RunStatus 200 ''OK'' ()),
       handleResponse = (\<lambda>body jid sid. Inr (TextReply ''answer'')) \<rparr>"

text \<open>The state after \<open>k\<close> faults that were each answered by a new session, and the session
  identifier in use then.\<close>

definition sessionAfter :: "string \<Rightarrow> (nat \<Rightarrow> string) \<Rightarrow> nat \<Rightarrow> string" where
  "sessionAfter sid ids k = (if k = 0 then sid else ids (k - 1))"

definition faulted :: "world \<Rightarrow> string \<Rightarrow> (nat \<Rightarrow> string) \<Rightarrow> nat \<Rightarrow> world" where
  "faulted w u ids k =
     w\<lparr>submits := submits w + k, creates := creates w + k,
       activeSessions :=
         (case activeSessions w u of
            None \<Rightarrow> activeSessions w
          | Some session \<Rightarrow>
              if k = 0 then activeSessions w
              else (activeSessions w)(u \<mapsto> session\<lparr>s_sessionId := ids (k - 1)\<rparr>))\<rparr>"

text \<open>Example data: stand-ins for the libraries (a workbook with the two sheets \<^verbatim>\<open>Sales\<close> and
  \<^verbatim>\<open>Costs\<close>), a document message with a declared MIME type and file name, and the fields of
  a result the claims speak about.\<close>

definition libDemo :: media_lib where
  "libDemo = \<lparr> sniffMime = (\<lambda>buf. None),
                readWorkbook = (\<lambda>buf. Some [(''Sales'', ''a,b''), (''Costs'', ''c,d'')]),
                extractRawText = (\<lambda>buf. Some ''plain words''),
                toBase64 = (\<lambda>bs. bs) \<rparr>"

definition documentMessage :: "string \<Rightarrow> string \<Rightarrow> wa_message" where
  "documentMessage mimetype fileName =
     \<lparr> wm_imageMessage = None, wm_videoMessage = None, wm_audioMessage = None,
       wm_documentMessage = Some \<lparr> ms_mimetype = Some mimetype, ms_fileName = Some fileName \<rparr>,
       wm_documentWithCaptionMessage = None \<rparr>"

definition summary :: "media_error + (media_result \<times> bucket)
    \<Rightarrow> media_error + (string \<times> string \<times> bool option \<times> string option \<times> js_data option)" where
  "summary r = map_sum id (\<lambda>(m, b). (mr_filename m, mr_mimeType m, mr_converted m,
                                       mr_originalFormat m, p_data (mr_part m))) r"

section \<open>Version numbers: rendering, parsing, listing\<close>

lemma of_char_digit_char: "d < 10 \<Longrightarrow> (of_char (digit_char d) :: nat) = 48 + d"
  by (simp add: digit_char_def)

lemma digit_val_digit_char: "d < 10 \<Longrightarrow> digit_val (digit_char d) = d"
  by (simp add: digit_val_def of_char_digit_char)

lemma is_digit_digit_char: "d < 10 \<Longrightarrow> is_digit (digit_char d)"
  by (simp add: is_digit_def less_eq_char_def of_char_digit_char)

lemma not_digit_v: "\<not> is_digit (CHR ''v'')"
  by (simp add: is_digit_def less_eq_char_def)

declare show_nat.simps [simp del]

lemma show_nat_digits: "list_all is_digit (show_nat n)"
proof (induction n rule: show_nat.induct)
  case (1 n)
  show ?case
  proof (cases "n < 10")
    case True
    then show ?thesis by (subst show_nat.simps) (simp add: is_digit_digit_char)
  next
    case False
    with 1 show ?thesis by (subst show_nat.simps) (simp add: is_digit_digit_char)
  qed
qed

lemma show_nat_nonempty: "show_nat n \<noteq> []"
  by (subst show_nat.simps) simp

lemma decimal_snoc: "decimal (ds @ [c]) = decimal ds * 10 + digit_val c"
  by (simp add: decimal_def)

lemma decimal_show_nat: "decimal (show_nat n) = n"
proof (induction n rule: show_nat.induct)
  case (1 n)
  show ?case
  proof (cases "n < 10")
    case True
    then show ?thesis by (subst show_nat.simps) (simp add: decimal_def digit_val_digit_char)
  next
    case False
    with 1 show ?thesis
      by (subst show_nat.simps) (simp add: decimal_snoc digit_val_digit_char)
  qed
qed

lemma show_nat_inj: "show_nat a = show_nat b \<Longrightarrow> a = b"
  by (metis decimal_show_nat)

declare bitlen.simps [simp del]

lemma takeWhile_digits_after:
  assumes "list_all is_digit ds" and "\<not> is_digit c"
  shows "takeWhile is_digit (rev (p @ c # ds)) = rev ds"
proof -
  have "\<And>x. x \<in> set (rev ds) \<Longrightarrow> is_digit x" using assms(1) by (simp add: list_all_iff)
  then have "takeWhile is_digit (rev ds @ (c # rev p)) = rev ds"
    using assms(2) by (subst takeWhile_append2) simp_all
  then show ?thesis by simp
qed

lemma bitlen_bounds: "0 < n \<Longrightarrow> 2 ^ (bitlen n - 1) \<le> n \<and> n < 2 ^ bitlen n"
proof (induction n rule: bitlen.induct)
  case (1 n)
  show ?case
  proof (cases "n div 2 = 0")
    case True
    with 1(2) have n1: "n = 1" by (cases n) auto
    have b0: "bitlen 0 = 0" by (subst bitlen.simps) simp
    have "bitlen 1 = 1" by (subst bitlen.simps) (simp add: b0)
    with n1 show ?thesis by simp
  next
    case False
    then have pos: "0 < n div 2" by simp
    from 1(1) [OF _ pos] 1(2)
    have ih: "2 ^ (bitlen (n div 2) - 1) \<le> n div 2" "n div 2 < 2 ^ bitlen (n div 2)" by auto
    have bl: "bitlen n = Suc (bitlen (n div 2))" using 1(2) by (subst bitlen.simps) simp
    have bpos: "0 < bitlen (n div 2)" using pos by (subst bitlen.simps) simp
    then obtain k where k: "bitlen (n div 2) = Suc k" by (cases "bitlen (n div 2)") auto
    from ih k have "2 * 2 ^ k \<le> 2 * (n div 2)" by simp
    then have lo: "2 ^ Suc k \<le> n" by simp
    from ih k have "n div 2 < 2 ^ Suc k" by simp
    then have hi: "n < 2 ^ Suc (Suc k)" by simp
    from lo hi bl k show ?thesis by simp
  qed
qed

lemma bitlen_eq:
  assumes "2 ^ k \<le> n" and "n < 2 ^ Suc k"
  shows "bitlen n = Suc k"
proof -
  have npos: "0 < n" using assms(1) by (metis less_le_trans zero_less_numeral zero_less_power)
  from bitlen_bounds [OF npos] have lo: "2 ^ (bitlen n - 1) \<le> n" and hi: "n < 2 ^ bitlen n" by auto
  have "(2::nat) ^ k < 2 ^ bitlen n" using assms(1) hi by linarith
  then have 1: "k < bitlen n" by (rule power_less_imp_less_exp [rotated]) simp
  have "(2::nat) ^ (bitlen n - 1) < 2 ^ Suc k" using assms(2) lo by linarith
  then have 2: "bitlen n - 1 < Suc k" by (rule power_less_imp_less_exp [rotated]) simp
  from 1 2 show ?thesis by simp
qed

lemma toDouble_small: "n < 2 ^ 53 \<Longrightarrow> toDouble n = Num n"
  by (simp add: toDouble_def)

lemma toDouble_large:
  assumes "\<not> n < 2 ^ 53"
  shows "toDouble n = Infinity \<or> (\<exists>y. toDouble n = Num y \<and> 2 ^ 53 \<le> y)"
proof -
  define e where "e = bitlen n - 53"
  define q where "q = n div 2 ^ e"
  define q' where "q' = (if 2 ^ (e - 1) < n mod 2 ^ e \<or> (n mod 2 ^ e = 2 ^ (e - 1) \<and> odd q) then q + 1 else q)"
  have npos: "0 < n" using assms by (cases n) auto
  from bitlen_bounds [OF npos] have lo: "2 ^ (bitlen n - 1) \<le> n" and hi: "n < 2 ^ bitlen n" by auto
  have "(2::nat) ^ 53 < 2 ^ bitlen n" using assms hi by linarith
  then have b54: "53 < bitlen n" by (rule power_less_imp_less_exp [rotated]) simp
  then have e1: "1 \<le> e" and be: "bitlen n - 1 = 52 + e" by (simp_all add: e_def)
  have "(2::nat) ^ 52 * 2 ^ e \<le> n" using lo be by (simp add: power_add)
  then have "2 ^ 52 \<le> q" unfolding q_def
    by (metis div_le_mono nonzero_mult_div_cancel_right power_not_zero zero_neq_numeral)
  then have q52: "2 ^ 52 \<le> q'" by (simp add: q'_def)
  have "(2::nat) ^ 1 \<le> 2 ^ e" using e1 by (intro power_increasing) simp_all
  then have "(2::nat) ^ 52 * 2 \<le> q' * 2 ^ e" using q52 by (intro mult_le_mono) simp_all
  then have big: "(2::nat) ^ 53 \<le> q' * 2 ^ e" by simp
  have "toDouble n = (if 1024 < bitlen n \<or> (bitlen n = 1024 \<and> q' = 2 ^ 53) then Infinity
               else Num (q' * 2 ^ e))"
    using assms unfolding toDouble_def Let_def e_def [symmetric] q_def [symmetric] q'_def by simp
  with big show ?thesis by auto
qed

lemma toDouble_eq_small: "toDouble m = Num x \<Longrightarrow> x < 2 ^ 53 \<Longrightarrow> m = x"
  using toDouble_large [of m] toDouble_small [of m] by (cases "m < 2 ^ 53") auto

lemma shortestDecimal_small: "x < 2 ^ 53 \<Longrightarrow> shortestDecimal x z = x"
proof (induction z)
  case 0
  show ?case by simp
next
  case (Suc z)
  define p :: nat where "p = 10 ^ Suc z"
  define lo where "lo = (x div p) * p"
  have ppos: "0 < p" by (simp add: p_def)
  have "lo \<le> x" by (simp add: lo_def)
  have "x < lo + p" unfolding lo_def using ppos
    by (metis add.commute dividend_less_div_times mult.commute)
  then have nhi: "toDouble (lo + p) \<noteq> Num x" using toDouble_eq_small [of "lo + p" x] Suc.prems by auto
  have lo_ok: "toDouble lo = Num x \<Longrightarrow> lo = x" using toDouble_eq_small Suc.prems by blast
  show ?case
    using Suc nhi lo_ok unfolding shortestDecimal.simps Let_def p_def [symmetric] lo_def [symmetric]
    by auto
qed

lemma length_show_nat: "n < 10 ^ k \<Longrightarrow> 0 < k \<Longrightarrow> length (show_nat n) \<le> k"
proof (induction n arbitrary: k rule: show_nat.induct)
  case (1 n)
  show ?case
  proof (cases "n < 10")
    case True
    then show ?thesis using 1(3) by (subst show_nat.simps) simp
  next
    case False
    then obtain j where k: "k = Suc j" using 1(3) by (cases k) auto
    have jpos: "0 < j" using False 1(2) k by (cases j) auto
    have "n div 10 < 10 ^ j" using 1(2) k by (simp add: less_mult_imp_div_less mult.commute)
    from 1(1) [OF False this jpos] k False show ?thesis by (subst show_nat.simps) simp
  qed
qed

lemma numberToString_small: "x < 2 ^ 53 \<Longrightarrow> numberToString (Num x) = show_nat x"
proof -
  assume a: "x < 2 ^ 53"
  have "(2::nat) ^ 53 < 10 ^ 21" by simp
  with a have "x < 10 ^ 21" by simp
  then have "length (show_nat x) \<le> 21" by (rule length_show_nat) simp
  then show ?thesis by (simp add: numberToString_def shortestDecimal_small [OF a])
qed

lemma set_map_filter: "set (List.map_filter f xs) = {y. \<exists>x\<in>set xs. f x = Some y}"
  by (induction xs) (auto simp: List.map_filter_simps split: option.splits)

lemma getArtifactPath_keyPath: "getArtifactPath a u f s = keyPath a u s f"
  by (simp add: getArtifactPath_def keyPath_def sessionOrShared_def)

lemma digits_suffix_unique:
  assumes "q @ ''/v'' @ ds = q' @ ''/v'' @ ds'" and "list_all is_digit ds" and "list_all is_digit ds'"
  shows "ds = ds' \<and> q = q'"
proof -
  have 1: "takeWhile is_digit (rev (q @ ''/v'' @ ds)) = rev ds"
    using takeWhile_digits_after [OF assms(2) not_digit_v, of "q @ ''/''"] by simp
  have 2: "takeWhile is_digit (rev (q' @ ''/v'' @ ds')) = rev ds'"
    using takeWhile_digits_after [OF assms(3) not_digit_v, of "q' @ ''/''"] by simp
  have "rev ds = rev ds'" by (metis 1 2 assms(1))
  then have "ds = ds'" by simp
  with assms(1) show ?thesis by simp
qed

lemma version_of_name_iff:
  "version_of_name name = Some v \<longleftrightarrow>
     (\<exists>q ds. name = q @ ''/v'' @ ds \<and> ds \<noteq> [] \<and> list_all is_digit ds \<and> v = toDouble (decimal ds))"
proof
  assume a: "version_of_name name = Some v"
  define ds where "ds = rev (takeWhile is_digit (rev name))"
  define rest where "rest = take (length name - length ds) name"
  from a have ne: "ds \<noteq> []" and ew: "endsWith rest ''/v''" and v: "v = parseInt ds"
    unfolding version_of_name_def Let_def ds_def [symmetric] rest_def [symmetric]
    by (auto split: if_splits)
  have dg: "list_all is_digit ds" unfolding ds_def list_all_iff
    using set_takeWhileD by fastforce
  have "rev name = takeWhile is_digit (rev name) @ dropWhile is_digit (rev name)" by simp
  then have "name = rev (dropWhile is_digit (rev name)) @ ds"
    unfolding ds_def by (metis rev_append rev_rev_ident)
  then have nm: "name = rest @ ds" unfolding rest_def by (metis append_eq_conv_conj diff_add_inverse2 length_append)
  from ew obtain q where "rest = q @ ''/v''"
    unfolding endsWith_def by (metis append_take_drop_id)
  with nm ne dg v show "\<exists>q ds. name = q @ ''/v'' @ ds \<and> ds \<noteq> [] \<and> list_all is_digit ds \<and> v = toDouble (decimal ds)"
    by (auto simp: parseInt_def)
next
  assume "\<exists>q ds. name = q @ ''/v'' @ ds \<and> ds \<noteq> [] \<and> list_all is_digit ds \<and> v = toDouble (decimal ds)"
  then obtain q ds where nm: "name = q @ ''/v'' @ ds" and ne: "ds \<noteq> []"
    and dg: "list_all is_digit ds" and v: "v = toDouble (decimal ds)" by blast
  have tw: "takeWhile is_digit (rev name) = rev ds"
    unfolding nm using takeWhile_digits_after [OF dg not_digit_v, of "q @ ''/''"] by simp
  have tk: "take (length name - length ds) name = q @ ''/v''" unfolding nm by simp
  have ew: "endsWith (q @ ''/v'') ''/v''" by (simp add: endsWith_def)
  show "version_of_name name = Some v"
    unfolding version_of_name_def Let_def tw using tk ew ne v by (simp add: parseInt_def)
qed



lemma listVersions_existing:
  assumes "online b"
  shows "set (listVersions b a u f s) = toDouble ` existingVersions b (keyPath a u s f)"
proof -
  define P where "P = keyPath a u s f @ ''/v''"
  have 1: "set (listVersions b a u f s) =
          {v. \<exists>n\<in>fst ` set (objects b). startsWith n P \<and> version_of_name n = Some v}"
    using assms unfolding P_def
    by (auto simp: listVersions_def getFiles_def set_map_filter getArtifactPath_keyPath)
  have 2: "{v. \<exists>n\<in>fst ` set (objects b). startsWith n P \<and> version_of_name n = Some v}
        = toDouble ` existingVersions b (keyPath a u s f)" (is "?L = ?R")
  proof (intro set_eqI iffI)
    fix v assume "v \<in> ?L"
    then obtain n where n: "n \<in> fst ` set (objects b)" "startsWith n P"
      and vn: "version_of_name n = Some v" by blast
    from vn obtain q ds where d: "n = q @ ''/v'' @ ds" "ds \<noteq> []" "list_all is_digit ds"
      "v = toDouble (decimal ds)" unfolding version_of_name_iff by blast
    have "decimal ds \<in> existingVersions b (keyPath a u s f)"
      unfolding existingVersions_def P_def [symmetric] using n d by auto
    with d(4) show "v \<in> ?R" by blast
  next
    fix v assume "v \<in> ?R"
    then obtain x where x: "x \<in> existingVersions b (keyPath a u s f)" and v: "v = toDouble x" by blast
    from x obtain q ds where d: "x = decimal ds" "ds \<noteq> []" "list_all is_digit ds"
      "(q @ ''/v'' @ ds) \<in> fst ` set (objects b)" "startsWith (q @ ''/v'' @ ds) P"
      unfolding existingVersions_def P_def [symmetric] by blast
    have "version_of_name (q @ ''/v'' @ ds) = Some v"
      unfolding version_of_name_iff using d v by blast
    with d(4,5) show "v \<in> ?L" by blast
  qed
  from 1 2 show ?thesis by simp
qed

lemma mathMax_Max: "mathMax v vs = Max (set (v # vs))"
  unfolding mathMax_def by (rule Max.set_eq_fold [symmetric])

lemma listVersions_max:
  assumes "online b" and "greatestVersion b (keyPath a u s f) m" and "m < 2 ^ 53"
    and "listVersions b a u f s = v # vs"
  shows "mathMax v vs = Num m"
proof -
  let ?E = "existingVersions b (keyPath a u s f)"
  note set = listVersions_existing [OF assms(1), of a u f s]
  from assms(2) have le: "\<And>v. v \<in> ?E \<Longrightarrow> v \<le> m" and m: "m = 0 \<or> m \<in> ?E"
    by (auto simp: greatestVersion_def)
  have small: "\<And>v. v \<in> ?E \<Longrightarrow> toDouble v = Num v"
    using le assms(3) by (intro toDouble_small) fastforce
  from set assms(4) obtain x where x: "x \<in> ?E" by auto
  have mE: "m \<in> ?E"
  proof (cases "m = 0")
    case True
    with le [OF x] have "x = 0" by simp
    with x True show ?thesis by simp
  next
    case False
    with m show ?thesis by simp
  qed
  have "Max (set (v # vs)) = Num m"
  proof (rule Max_eqI)
    show "finite (set (v # vs))" by simp
    show "Num m \<in> set (v # vs)" using set assms(4) mE small [OF mE] by (metis image_eqI)
    fix y assume "y \<in> set (v # vs)"
    with set assms(4) obtain z where "z \<in> ?E" "y = toDouble z" by auto
    with small le show "y \<le> Num m" by simp
  qed
  then show ?thesis by (simp add: mathMax_Max)
qed

lemma nextVersion_safe:
  assumes "online b" and "greatestVersion b (keyPath a u s f) m" and "m + 1 < 2 ^ 53"
  shows "nextVersion (listVersions b a u f s) = Num (m + 1)"
proof (cases "listVersions b a u f s")
  case Nil
  with listVersions_existing [OF assms(1), of a u f s]
  have "existingVersions b (keyPath a u s f) = {}" by simp
  with assms(2) have "m = 0" by (simp add: greatestVersion_def)
  with Nil show ?thesis by (simp add: nextVersion_def)
next
  case (Cons v vs)
  have "m < 2 ^ 53" using assms(3) by simp
  with assms(1,2) Cons have "mathMax v vs = Num m" by (intro listVersions_max) auto
  with Cons show ?thesis using assms(3) by (simp add: nextVersion_def plusOne_def toDouble_small)
qed

lemma names_after_save:
  "fst ` set ((name, obj) # filter (\<lambda>(n, _). n \<noteq> name) objs) = insert name (fst ` set objs)"
  by force

lemma existingVersions_after_save:
  assumes "names' = insert (P @ ''/v'' @ show_nat n) (fst ` set (objects b))"
    and "fst ` set (objects b') = names'"
  shows "existingVersions b' P = insert n (existingVersions b P)"
proof (intro set_eqI iffI)
  fix v assume "v \<in> existingVersions b' P"
  then obtain q ds where d: "v = decimal ds" "ds \<noteq> []" "list_all is_digit ds"
      "(q @ ''/v'' @ ds) \<in> fst ` set (objects b')" "startsWith (q @ ''/v'' @ ds) (P @ ''/v'')"
    unfolding existingVersions_def by blast
  from d(4) assms consider "q @ ''/v'' @ ds = P @ ''/v'' @ show_nat n"
    | "(q @ ''/v'' @ ds) \<in> fst ` set (objects b)" by auto
  then show "v \<in> insert n (existingVersions b P)"
  proof cases
    case 1
    from digits_suffix_unique [OF 1 d(3) show_nat_digits] have "ds = show_nat n" by simp
    with d(1) show ?thesis by (simp add: decimal_show_nat)
  next
    case 2
    with d have "v \<in> existingVersions b P" unfolding existingVersions_def by blast
    then show ?thesis by simp
  qed
next
  fix v assume "v \<in> insert n (existingVersions b P)"
  then consider "v = n" | "v \<in> existingVersions b P" by auto
  then show "v \<in> existingVersions b' P"
  proof cases
    case 1
    have "startsWith (P @ ''/v'' @ show_nat n) (P @ ''/v'')" by (simp add: startsWith_def)
    moreover have "(P @ ''/v'' @ show_nat n) \<in> fst ` set (objects b')" using assms by simp
    ultimately have "\<exists>q ds. v = decimal ds \<and> ds \<noteq> [] \<and> list_all is_digit ds
        \<and> (q @ ''/v'' @ ds) \<in> fst ` set (objects b') \<and> startsWith (q @ ''/v'' @ ds) (P @ ''/v'')"
      using 1 show_nat_nonempty [of n] show_nat_digits [of n] decimal_show_nat [of n]
      by (intro exI [of _ P] exI [of _ "show_nat n"]) simp
    then show ?thesis unfolding existingVersions_def by blast
  next
    case 2
    then obtain q ds where d: "v = decimal ds" "ds \<noteq> []" "list_all is_digit ds"
      "(q @ ''/v'' @ ds) \<in> fst ` set (objects b)" "startsWith (q @ ''/v'' @ ds) (P @ ''/v'')"
      unfolding existingVersions_def by blast
    from d(4) assms have "(q @ ''/v'' @ ds) \<in> fst ` set (objects b')" by simp
    with d show ?thesis unfolding existingVersions_def by blast
  qed
qed

lemma saveArtifact_step:
  assumes "online b" and "objectsOnline b"
    and "greatestVersion b (keyPath a u s f) m" and "m + 1 < 2 ^ 53"
  shows "saveArtifact b now a u f p s =
           Inr (Num (m + 1),
                b\<lparr>objects := (keyPath a u s f @ ''/v'' @ show_nat (m + 1), storedObject f (now, p) (m + 1))
                               # filter (\<lambda>(n, _). n \<noteq> keyPath a u s f @ ''/v'' @ show_nat (m + 1)) (objects b)\<rparr>)"
proof -
  have nv: "nextVersion (listVersions b a u f s) = Num (m + 1)"
    using assms(1,3,4) by (rule nextVersion_safe)
  have ts: "numberToString (Num (m + 1)) = show_nat (m + 1)"
    using assms(4) by (intro numberToString_small) simp
  show ?thesis
    unfolding saveArtifact_def Let_def nv ts getArtifactPath_keyPath
    using assms(2) by (simp add: file_save_def storedObject_def)
qed

lemma greatestVersion_after_save:
  assumes "greatestVersion b P m"
    and "fst ` set (objects b') = insert (P @ ''/v'' @ show_nat (m + 1)) (fst ` set (objects b))"
  shows "greatestVersion b' P (m + 1)"
proof -
  have "existingVersions b' P = insert (m + 1) (existingVersions b P)"
    using assms(2) by (intro existingVersions_after_save) simp_all
  with assms(1) show ?thesis by (auto simp: greatestVersion_def)
qed

lemma map_of_after_save:
  "map_of ((name, obj) # filter (\<lambda>(n, _). n \<noteq> name) objs) x = (if x = name then Some obj else map_of objs x)"
  by (induction objs) auto

lemma saveSequence_safe:
  assumes "online b" and "objectsOnline b"
    and "greatestVersion b (keyPath a u s f) m" and "m + length calls < 2 ^ 53"
  shows "\<exists>b'. saveSequence b a u f s calls = Inr (map Num [m + 1 ..< m + 1 + length calls], b')
            \<and> online b' \<and> objectsOnline b'
            \<and> greatestVersion b' (keyPath a u s f) (m + length calls)
            \<and> (\<forall>k < length calls.
                  map_of (objects b') (keyPath a u s f @ ''/v'' @ show_nat (m + 1 + k))
                    = Some (storedObject f (calls ! k) (m + 1 + k)))
            \<and> (\<forall>name. (\<forall>k < length calls. name \<noteq> keyPath a u s f @ ''/v'' @ show_nat (m + 1 + k))
                  \<longrightarrow> map_of (objects b') name = map_of (objects b) name)"
  using assms
proof (induction calls arbitrary: b m)
  case Nil
  then show ?case by simp
next
  case (Cons c calls)
  obtain now p where c: "c = (now, p)" by (cases c)
  let ?P = "keyPath a u s f"
  define n1 where "n1 = ?P @ ''/v'' @ show_nat (m + 1)"
  define o1 where "o1 = storedObject f (now, p) (m + 1)"
  define b1 where "b1 = b\<lparr>objects := (n1, o1) # filter (\<lambda>(n, _). n \<noteq> n1) (objects b)\<rparr>"
  have m1: "m + 1 < 2 ^ 53" using Cons.prems(4) by simp
  have s1: "saveArtifact b now a u f p s = Inr (Num (m + 1), b1)"
    unfolding b1_def n1_def o1_def using Cons.prems(1,2,3) m1 by (rule saveArtifact_step)
  have on1: "online b1" "objectsOnline b1" using Cons.prems(1,2) by (simp_all add: b1_def)
  have ob1: "objects b1 = (n1, o1) # filter (\<lambda>(n, _). n \<noteq> n1) (objects b)"
    by (simp add: b1_def)
  have names1: "fst ` set (objects b1) = insert n1 (fst ` set (objects b))"
    unfolding ob1 by (rule names_after_save)
  have g1: "greatestVersion b1 ?P (m + 1)"
    using Cons.prems(3) names1 unfolding n1_def by (rule greatestVersion_after_save)
  have len: "(m + 1) + length calls < 2 ^ 53" using Cons.prems(4) by simp
  from Cons.IH [OF on1 g1 len] obtain b' where
    sq: "saveSequence b1 a u f s calls = Inr (map Num [m + 1 + 1 ..< m + 1 + 1 + length calls], b')"
    and on': "online b'" "objectsOnline b'"
    and g': "greatestVersion b' ?P (m + 1 + length calls)"
    and obj': "\<And>k. k < length calls \<Longrightarrow>
                 map_of (objects b') (?P @ ''/v'' @ show_nat (m + 1 + 1 + k))
                   = Some (storedObject f (calls ! k) (m + 1 + 1 + k))"
    and frame': "\<And>name. (\<forall>k < length calls. name \<noteq> ?P @ ''/v'' @ show_nat (m + 1 + 1 + k))
                  \<Longrightarrow> map_of (objects b') name = map_of (objects b1) name"
    by blast
  have mo1: "\<And>x. map_of (objects b1) x = (if x = n1 then Some o1 else map_of (objects b) x)"
    unfolding ob1 by (rule map_of_after_save)
  have "[m + 1 ..< m + 1 + Suc (length calls)] = (m + 1) # [Suc (m + 1) ..< m + 1 + Suc (length calls)]"
    by (rule upt_conv_Cons) simp
  then have up: "[m + 1 ..< m + 1 + length (c # calls)] = (m + 1) # [m + 1 + 1 ..< m + 1 + 1 + length calls]"
    by simp
  have r1: "saveSequence b a u f s (c # calls) = Inr (map Num [m + 1 ..< m + 1 + length (c # calls)], b')"
    unfolding up using s1 sq c by simp
  have r2: "greatestVersion b' ?P (m + length (c # calls))" using g' by simp
  have r3: "map_of (objects b') (?P @ ''/v'' @ show_nat (m + 1 + k)) = Some (storedObject f ((c # calls) ! k) (m + 1 + k))"
    if k: "k < length (c # calls)" for k
  proof (cases k)
    case 0
    have "\<forall>j < length calls. n1 \<noteq> ?P @ ''/v'' @ show_nat (m + 1 + 1 + j)"
      unfolding n1_def using show_nat_inj by fastforce
    from frame' [OF this] mo1 0 c show ?thesis by (simp add: n1_def o1_def)
  next
    case (Suc j)
    with k have "j < length calls" by simp
    from obj' [OF this] Suc show ?thesis by simp
  qed
  have r4: "map_of (objects b') name = map_of (objects b) name"
    if nm: "\<forall>k < length (c # calls). name \<noteq> ?P @ ''/v'' @ show_nat (m + 1 + k)" for name
  proof -
    from nm have n0: "name \<noteq> n1" unfolding n1_def by auto
    have "\<forall>j < length calls. name \<noteq> ?P @ ''/v'' @ show_nat (m + 1 + 1 + j)"
    proof (intro allI impI)
      fix j assume "j < length calls"
      then have "Suc j < length (c # calls)" by simp
      with nm have "name \<noteq> ?P @ ''/v'' @ show_nat (m + 1 + Suc j)" by blast
      then show "name \<noteq> ?P @ ''/v'' @ show_nat (m + 1 + 1 + j)" by simp
    qed
    from frame' [OF this] mo1 n0 show ?thesis by simp
  qed
  from r1 on' r2 r3 r4 show ?case by blast
qed

lemma show_nat_small:
  "show_nat 1 = ''1''" "show_nat 2 = ''2''" "show_nat 3 = ''3''"
  "show_nat (Suc 0) = ''1''" "show_nat (Suc (Suc 0)) = ''2''" "show_nat (Suc (Suc (Suc 0))) = ''3''"
  by code_simp+




section \<open>Listing the artifact names of a user\<close>

lemma split_on_nonempty: "split_on d s \<noteq> []"
  by (induction s) (auto simp: Let_def)

lemma split_on_no_delim: "d \<notin> set s \<Longrightarrow> split_on d s = [s]"
  by (induction s) (auto simp: Let_def)

lemma split_on_first: "d \<notin> set k \<Longrightarrow> split_on d (k @ d # r) = k # split_on d r"
  by (induction k) (auto simp: Let_def)

lemma hd_split_on_starts_v:
  "d \<noteq> CHR ''v'' \<Longrightarrow> startsWith (hd (split_on d r)) ''v'' = (\<exists>rest. r = CHR ''v'' # rest)"
  by (cases r) (auto simp: startsWith_def Let_def)

lemma first_delim_unique:
  "d \<notin> set k0 \<Longrightarrow> d \<notin> set k \<Longrightarrow> k0 @ d # r = k @ d # r' \<Longrightarrow> k0 = k \<and> r = r'"
proof (induction k0 arbitrary: k)
  case Nil
  then show ?case by (cases k) auto
next
  case (Cons c k0)
  then show ?case by (cases k) auto
qed

lemma keyOfObjectName_iff:
  "keyOfObjectName userPath name = Some k \<longleftrightarrow>
     (CHR ''/'' \<notin> set k \<and> (\<exists>rest. drop (length userPath) name = k @ ''/v'' @ rest))"
proof -
  let ?rel = "drop (length userPath) name"
  let ?d = "CHR ''/''"
  show ?thesis
  proof (cases "?d \<in> set ?rel")
    case False
    then have "split_on ?d ?rel = [?rel]" by (rule split_on_no_delim)
    moreover have "\<And>rest. ?rel \<noteq> k @ ''/v'' @ rest" using False by auto
    ultimately show ?thesis by (simp add: keyOfObjectName_def)
  next
    case True
    then obtain k0 r where rel: "?rel = k0 @ ?d # r" and k0: "?d \<notin> set k0"
      by (meson split_list_first)
    then have sp: "split_on ?d ?rel = k0 # split_on ?d r" by (simp add: split_on_first)
    have len: "length (split_on ?d ?rel) \<ge> 2"
      using sp split_on_nonempty [of ?d r] by (cases "split_on ?d r") auto
    have nth1: "split_on ?d ?rel ! 1 = hd (split_on ?d r)"
      using sp split_on_nonempty [of ?d r] by (cases "split_on ?d r") auto
    have key: "keyOfObjectName userPath name = Some k \<longleftrightarrow>
                 (k = k0 \<and> (\<exists>rest. r = CHR ''v'' # rest))"
      unfolding keyOfObjectName_def Let_def
      using len nth1 sp hd_split_on_starts_v [of ?d r] by auto
    have "(?d \<notin> set k \<and> (\<exists>rest. ?rel = k @ ''/v'' @ rest)) \<longleftrightarrow>
          (k = k0 \<and> (\<exists>rest. r = CHR ''v'' # rest))"
    proof
      assume a: "?d \<notin> set k \<and> (\<exists>rest. ?rel = k @ ''/v'' @ rest)"
      then obtain rest where eq: "k0 @ ?d # r = k @ ?d # (CHR ''v'' # rest)" using rel by auto
      have kk: "?d \<notin> set k" using a by simp
      from k0 kk eq have "k0 = k \<and> r = CHR ''v'' # rest"
        by (rule first_delim_unique)
      then show "k = k0 \<and> (\<exists>rest. r = CHR ''v'' # rest)" by blast
    next
      assume "k = k0 \<and> (\<exists>rest. r = CHR ''v'' # rest)"
      then show "?d \<notin> set k \<and> (\<exists>rest. ?rel = k @ ''/v'' @ rest)" using rel k0 by auto
    qed
    with key show ?thesis by simp
  qed
qed

lemma startsWith_iff: "startsWith n p \<longleftrightarrow> (\<exists>r. n = p @ r)"
  unfolding startsWith_def
  by (metis append_eq_conv_conj append_take_drop_id)

lemma listArtifactKeys_set:
  assumes "online b"
  shows "set (listArtifactKeys folder b a u) =
     {k. CHR ''/'' \<notin> set k \<and>
         (\<exists>rest. (folder @ ''/'' @ a @ ''/'' @ u @ ''/'' @ k @ ''/v'' @ rest) \<in> fst ` set (objects b))}"
proof -
  define up where "up = folder @ ''/'' @ a @ ''/'' @ u @ ''/''"
  have "set (listArtifactKeys folder b a u) =
          {k. \<exists>n\<in>set (map fst (objects b)). startsWith n up \<and> keyOfObjectName up n = Some k}"
    using assms unfolding up_def
    by (auto simp: listArtifactKeys_def getFiles_def set_map_filter Let_def)
  also have "\<dots> = {k. CHR ''/'' \<notin> set k \<and> (\<exists>rest. (up @ k @ ''/v'' @ rest) \<in> fst ` set (objects b))}"
  proof (intro set_eqI iffI; clarify)
    fix k n assume n: "n \<in> set (map fst (objects b))" and st: "startsWith n up"
      and key: "keyOfObjectName up n = Some k"
    from st obtain r where r: "n = up @ r" unfolding startsWith_iff by blast
    from key obtain rest where k: "CHR ''/'' \<notin> set k" and d: "drop (length up) n = k @ ''/v'' @ rest"
      unfolding keyOfObjectName_iff by blast
    from r d have "n = up @ k @ ''/v'' @ rest" by simp
    with n k show "CHR ''/'' \<notin> set k \<and> (\<exists>rest. (up @ k @ ''/v'' @ rest) \<in> fst ` set (objects b))"
      by auto
  next
    fix k rest n obj
    assume k: "CHR ''/'' \<notin> set k" and n: "(n, obj) \<in> set (objects b)"
      and eq: "up @ k @ ''/v'' @ rest = fst (n, obj)"
    have st: "startsWith n up" using eq unfolding startsWith_iff by auto
    have "drop (length up) n = k @ ''/v'' @ rest" using eq [symmetric] by simp
    with k have "keyOfObjectName up n = Some k" unfolding keyOfObjectName_iff by blast
    with st n show "\<exists>n\<in>set (map fst (objects b)). startsWith n up \<and> keyOfObjectName up n = Some k"
      by force
  qed
  finally show ?thesis unfolding up_def by simp
qed

lemma listArtifactKeys_sorted_distinct:
  "sorted (listArtifactKeys folder b a u) \<and> distinct (listArtifactKeys folder b a u)"
  by (simp add: listArtifactKeys_def Let_def split: sum.splits)

section \<open>Claims about the artifact store\<close>




text \<open>
  The two other conditions of the amended claim are needed as well. The existing versions
  are read off the object names, so an object of another key counts when its name lies
  under \<open>P/v\<close> and ends in \<^verbatim>\<open>/v\<close> and digits: after a save of the file name
  \<^verbatim>\<open>report.pdf/vx\<close>, the first save of \<^verbatim>\<open>report.pdf\<close> returns 2. And versions are doubles:
  the digits \<^verbatim>\<open>9007199254740993\<close> are read as \<open>2^53\<close>, and the version after \<open>2^53\<close> is
  \<open>2^53\<close> again.
\<close>

lemma other_key_under_the_same_prefix:
  "(case saveArtifact store0 ''t1'' ''app'' ''u1'' ''report.pdf/vx'' (pdfPart ''one'') (Some ''s1'') of
      Inl e \<Rightarrow> None
    | Inr (v1, b1) \<Rightarrow>
        (case saveArtifact b1 ''t2'' ''app'' ''u1'' ''report.pdf'' (pdfPart ''two'') (Some ''s1'') of
           Inl e \<Rightarrow> None
         | Inr (v2, b2) \<Rightarrow> Some (v1, v2, map fst (objects b2))))
   = Some (Num 1, Num 2, [''app/u1/s1/report.pdf/v2'', ''app/u1/s1/report.pdf/vx/v1''])"
  by code_simp

lemma nextVersion_stalls_at_2_53:
  "parseInt ''9007199254740993'' = Num 9007199254740992
   \<and> nextVersion [Num 9007199254740992] = Num 9007199254740992"
proof -
  have b: "bitlen 9007199254740993 = 54"
    using bitlen_eq [of 53 9007199254740993] by simp
  have t: "toDouble 9007199254740993 = Num 9007199254740992"
    by (simp add: toDouble_def Let_def b)
  have d: "decimal ''9007199254740993'' = 9007199254740993"
    by (simp add: decimal_def digit_val_def)
  from t d show ?thesis by (simp add: parseInt_def nextVersion_def mathMax_def plusOne_def)
qed






text \<open>
  Claim C2 says that the listing of a user's artifact names merges the legacy flat
  convention and the session-scoped convention. \<^verbatim>\<open>listArtifactKeys\<close> does not: it lists the
  objects under \<^verbatim>\<open>{artifactsFolder}/{appName}/{userId}/\<close> and keeps the first path segment
  of those whose second segment starts with \<^verbatim>\<open>v\<close>. In \<open>store_mixed\<close> the legacy artifact
  \<^verbatim>\<open>report.pdf\<close> is listed; the session-scoped \<^verbatim>\<open>photo.png\<close> (written by the backend at
  version 0) and \<^verbatim>\<open>chart.png\<close> (at the path \<^verbatim>\<open>saveArtifact\<close> writes) are not.
\<close>

theorem listing_misses_session_scoped_counterexample:
  "listArtifactKeys ''artifacts'' store_mixed ''app'' ''u1'' = [''report.pdf'']
   \<and> ''photo.png'' \<notin> set (listArtifactKeys ''artifacts'' store_mixed ''app'' ''u1'')
   \<and> ''chart.png'' \<notin> set (listArtifactKeys ''artifacts'' store_mixed ''app'' ''u1'')"
proof -
  have "listArtifactKeys ''artifacts'' store_mixed ''app'' ''u1'' = [''report.pdf'']"
    by code_simp
  then show ?thesis by simp
qed

text \<open>
  Claim C2 as amended. On a reachable store the listing of a user is sorted, has no
  duplicates, and holds exactly the names \<open>F\<close> without a slash for which an object
  \<^verbatim>\<open>{artifactsFolder}/{appName}/{userId}/F/v...\<close> exists. So every artifact stored under the
  legacy flat convention inside the artifacts folder,
  \<^verbatim>\<open>{artifactsFolder}/{appName}/{userId}/{filename}/v{version}\<close>, is listed.
\<close>

theorem listing_is_legacy_layout:
  assumes "online b"
  shows "set (listArtifactKeys folder b a u) =
           {k. CHR ''/'' \<notin> set k \<and>
               (\<exists>rest. (folder @ ''/'' @ a @ ''/'' @ u @ ''/'' @ k @ ''/v'' @ rest)
                          \<in> fst ` set (objects b))}
       \<and> sorted (listArtifactKeys folder b a u)
       \<and> distinct (listArtifactKeys folder b a u)
       \<and> (\<forall>F n. CHR ''/'' \<notin> set F \<and>
                 (folder @ ''/'' @ a @ ''/'' @ u @ ''/'' @ F @ ''/v'' @ show_nat n)
                   \<in> fst ` set (objects b)
               \<longrightarrow> F \<in> set (listArtifactKeys folder b a u))"
proof -
  note eq = listArtifactKeys_set [OF assms, of folder a u]
  have "\<forall>F n. CHR ''/'' \<notin> set F \<and>
                 (folder @ ''/'' @ a @ ''/'' @ u @ ''/'' @ F @ ''/v'' @ show_nat n)
                   \<in> fst ` set (objects b)
               \<longrightarrow> F \<in> set (listArtifactKeys folder b a u)"
    unfolding eq by blast
  with eq listArtifactKeys_sorted_distinct [of folder b a u] show ?thesis by blast
qed

theorem listing_is_legacy_layout_witness:
  "online store_mixed
   \<and> (''artifacts'' @ ''/'' @ ''app'' @ ''/'' @ ''u1'' @ ''/'' @ ''report.pdf'' @ ''/v'' @ show_nat 1)
        \<in> fst ` set (objects store_mixed)
   \<and> ''report.pdf'' \<in> set (listArtifactKeys ''artifacts'' store_mixed ''app'' ''u1'')"
proof -
  have on: "online store_mixed" by (simp add: store_mixed_def)
  have sn: "show_nat 1 = ''1''" by code_simp
  have ob: "(''artifacts'' @ ''/'' @ ''app'' @ ''/'' @ ''u1'' @ ''/'' @ ''report.pdf'' @ ''/v'' @ show_nat 1)
        \<in> fst ` set (objects store_mixed)"
    unfolding sn by (simp add: store_mixed_def)
  have sl: "CHR ''/'' \<notin> set ''report.pdf''" by simp
  from listing_is_legacy_layout [OF on, of "''artifacts''" "''app''" "''u1''"] ob sl
  have "''report.pdf'' \<in> set (listArtifactKeys ''artifacts'' store_mixed ''app'' ''u1'')"
    by blast
  with on ob show ?thesis by blast
qed



section \<open>Loading an artifact by file name\<close>

lemma listVersions_nonempty:
  assumes "online b" and "greatestVersion b (keyPath a u s f) m" and "0 < m"
  shows "listVersions b a u f s \<noteq> []"
proof -
  from assms(2,3) have "m \<in> existingVersions b (keyPath a u s f)" by (auto simp: greatestVersion_def)
  then have "toDouble m \<in> set (listVersions b a u f s)"
    unfolding listVersions_existing [OF assms(1)] by blast
  then show ?thesis by auto
qed

lemma loadedPart_stored:
  "parsedFields jf (content (storedObject f (now, p) n))
     = Some (p_mimeType (loadedPart p), p_data (loadedPart p))
   \<and> p_inline_data (loadedPart p) = Some (p_mimeType (loadedPart p), p_data (loadedPart p))"
  by (auto simp: parsedFields_def storedObject_def loadedPart_def artifactData_of_part_def
        truthy_def truthyData_def Let_def split: option.splits js_data.splits)

lemma loadArtifact_at_path:
  assumes "objectsOnline b" and "numberToString tv = ds"
    and "map_of (objects b) (keyPath a u s f @ ''/v'' @ ds) = Some (storedObject f (now, p) n)"
    and "version \<noteq> None \<and> version \<noteq> Some (Num 0) \<and> version = Some tv
         \<or> (version = None \<or> version = Some (Num 0))
            \<and> (\<exists>v vs. listVersions b a u f s = v # vs \<and> mathMax v vs = tv)"
  shows "loadArtifact jf b a u f version s = Some (loadedPart p)"
proof -
  have tg: "(if version \<noteq> None \<and> version \<noteq> Some (Num 0) then version
             else (case listVersions b a u f s of [] \<Rightarrow> None | v # vs \<Rightarrow> Some (mathMax v vs))) = Some tv"
    using assms(4) by auto
  have ex: "file_exists b (keyPath a u s f @ ''/v'' @ ds) = Inr True"
    using assms(1,3) by (simp add: file_exists_def)
  have dl: "file_download b (keyPath a u s f @ ''/v'' @ ds) = Inr (storedObject f (now, p) n)"
    using assms(1,3) by (simp add: file_download_def)
  have eq: "\<lparr> p_mimeType = p_mimeType (loadedPart p), p_data = p_data (loadedPart p),
               p_inline_data = Some (p_mimeType (loadedPart p), p_data (loadedPart p)) \<rparr> = loadedPart p"
    using loadedPart_stored [of jf f now p n] by simp
  show ?thesis
    unfolding loadArtifact_def Let_def tg getArtifactPath_keyPath
    using ex dl loadedPart_stored [of jf f now p n] eq by (simp add: assms(2))
qed

lemma loadArtifact_absent:
  assumes "\<forall>name \<in> fst ` set (objects b). \<not> startsWith name (keyPath a u s g @ ''/v'')"
  shows "loadArtifact jf b a u g version s = None"
proof -
  have lv: "listVersions b a u g s = []"
    using assms
    by (auto simp: listVersions_def getFiles_def getArtifactPath_keyPath List.map_filter_simps
          filter_empty_conv split: sum.splits)
  have no: "map_of (objects b) (keyPath a u s g @ ''/v'' @ x) = None" for x
  proof (rule ccontr)
    assume "map_of (objects b) (keyPath a u s g @ ''/v'' @ x) \<noteq> None"
    then have "(keyPath a u s g @ ''/v'' @ x) \<in> fst ` set (objects b)"
      by (metis map_of_eq_None_iff)
    moreover have "startsWith (keyPath a u s g @ ''/v'' @ x) (keyPath a u s g @ ''/v'')"
      by (simp add: startsWith_def)
    ultimately show False using assms by blast
  qed
  then have no': "\<And>x. map_of (objects b) (keyPath a u s g @ CHR ''/'' # CHR ''v'' # x) = None"
    by simp
  show ?thesis
    unfolding loadArtifact_def Let_def lv getArtifactPath_keyPath
    by (auto simp: file_exists_def no' split: option.splits sum.splits bool.splits)
qed

lemma not_digit_chars:
  "\<not> is_digit (CHR ''v'')" "\<not> is_digit (CHR '')'')" "\<not> is_digit (CHR ''('')" "\<not> is_digit (CHR 0x0A)"
  by (simp_all add: is_digit_def less_eq_char_def)

lemma matchAtEnd_strips:
  assumes "lead = l0 @ [c]" and "\<not> is_digit c"
  shows "matchAtEnd lead trail (f @ lead @ show_nat n @ trail) = Some f"
proof -
  let ?ds = "show_nat n"
  have tw: "takeWhile is_digit (rev (f @ lead @ ?ds)) = rev ?ds"
    using takeWhile_digits_after [OF show_nat_digits assms(2), of "f @ l0" n] assms(1) by simp
  have ew: "endsWith (f @ lead @ ?ds @ trail) trail" by (simp add: endsWith_def)
  have bd: "take (length (f @ lead @ ?ds @ trail) - length trail) (f @ lead @ ?ds @ trail) = f @ lead @ ?ds"
    by simp
  have tk: "take (length (f @ lead @ ?ds) - length ?ds) (f @ lead @ ?ds) = f @ lead" by simp
  have el: "endsWith (f @ lead) lead" by (simp add: endsWith_def)
  show ?thesis
    unfolding matchAtEnd_def Let_def bd tw
    using ew tk el by (simp add: show_nat_nonempty)
qed

lemma matchAtEnd_last_char:
  assumes "matchAtEnd lead trail s = Some r"
  shows "s \<noteq> [] \<and> (if trail = [] then is_digit (last s) else last s = last trail)"
proof -
  from assms have ew: "endsWith s trail"
    and ne: "rev (takeWhile is_digit (rev (take (length s - length trail) s))) \<noteq> []"
    by (auto simp: matchAtEnd_def Let_def split: if_splits)
  from ew obtain body where s: "s = body @ trail"
    unfolding endsWith_def by (metis append_take_drop_id)
  with ne have tw: "takeWhile is_digit (rev body) \<noteq> []" by simp
  then have bne: "body \<noteq> []" by auto
  from tw have "is_digit (hd (rev body))" by (cases "rev body") (auto split: if_splits)
  then have "is_digit (last body)" using bne by (simp add: hd_rev)
  with s bne show ?thesis by auto
qed

lemma matchAtEnd_lead:
  assumes "matchAtEnd lead [] (f @ lead' @ show_nat n) = Some r"
    and "lead' = l0 @ [c]" and "\<not> is_digit c" and "length lead = length lead'"
  shows "lead = lead'"
proof -
  let ?ds = "show_nat n"
  have tw: "takeWhile is_digit (rev (f @ lead' @ ?ds)) = rev ?ds"
    using takeWhile_digits_after [OF show_nat_digits assms(3), of "f @ l0" n] assms(2) by simp
  have tk: "take (length (f @ lead' @ ?ds) - length ?ds) (f @ lead' @ ?ds) = f @ lead'" by simp
  from assms(1) have "endsWith (f @ lead') lead"
    unfolding matchAtEnd_def Let_def using tw tk by (simp split: if_splits)
  with assms(4) show ?thesis by (simp add: endsWith_def)
qed

lemma re_sub_strips:
  assumes "lead = l0 @ [c]" and "\<not> is_digit c"
  shows "re_sub (lead, trail) (f @ lead @ show_nat n @ trail) = f"
  by (simp add: re_sub_def matchAtEnd_strips [OF assms])

lemma re_sub_no_match:
  assumes "matchAtEnd lead trail s = None" and "s = [] \<or> last s \<noteq> CHR 0x0A"
  shows "re_sub (lead, trail) s = s"
  using assms by (auto simp: re_sub_def)

lemma last_show_nat: "is_digit (last (f @ show_nat n))"
  using show_nat_digits [of n] show_nat_nonempty [of n] by (simp add: list_all_iff)

lemma matchAtEnd_other_lead:
  assumes "lead' = l0 @ [c]" and "\<not> is_digit c" and "length lead = length lead'" and "lead \<noteq> lead'"
  shows "matchAtEnd lead [] (f @ lead' @ show_nat n) = None"
proof (cases "matchAtEnd lead [] (f @ lead' @ show_nat n)")
  case None
  then show ?thesis .
next
  case (Some r)
  from Some assms(1,2,3) have "lead = lead'" by (rule matchAtEnd_lead)
  with assms(4) show ?thesis by simp
qed

lemma matchAtEnd_paren_on_digit:
  "matchAtEnd lead '')'' (p @ show_nat n) = None"
proof (cases "matchAtEnd lead '')'' (p @ show_nat n)")
  case None
  then show ?thesis .
next
  case (Some r)
  from matchAtEnd_last_char [OF Some] have "last (p @ show_nat n) = CHR '')''" by simp
  with last_show_nat [of p n] not_digit_chars(2) show ?thesis by simp
qed

lemma matchAtEnd_digits_on_paren:
  "matchAtEnd lead [] (p @ '')'') = None"
proof (cases "matchAtEnd lead [] (p @ '')'')")
  case None
  then show ?thesis .
next
  case (Some r)
  from matchAtEnd_last_char [OF Some] have "is_digit (last (p @ '')''))" by simp
  with not_digit_chars(2) show ?thesis by simp
qed

lemma possible_filenames_unfold:
  "possible_filenames s =
     s # filter (\<lambda>cleaned. cleaned \<noteq> s)
           [re_sub ('' v'', []) s, re_sub (''_v'', []) s, re_sub ('' ('', '')'') s]"
  by (simp add: possible_filenames_def version_patterns_def)

lemma not_line_feed: "s = [] \<or> is_digit (last s) \<or> last s = CHR '')'' \<Longrightarrow> s = [] \<or> last s \<noteq> CHR 0x0A"
  using not_digit_chars(4) by auto

lemma candidates_space_v:
  "possible_filenames (f @ '' v'' @ show_nat n) = [f @ '' v'' @ show_nat n, f]"
proof -
  define s where "s = f @ '' v'' @ show_nat n"
  have nl: "s = [] \<or> last s \<noteq> CHR 0x0A"
    using last_show_nat [of "f @ '' v''" n] by (intro not_line_feed) (simp add: s_def)
  have 1: "re_sub ('' v'', []) s = f"
    unfolding s_def using re_sub_strips [of "'' v''" "'' ''" "CHR ''v''" "[]" f n]
    by (simp add: not_digit_chars)
  have "matchAtEnd ''_v'' [] s = None"
    unfolding s_def by (rule matchAtEnd_other_lead [of _ "'' ''" "CHR ''v''"]) (simp_all add: not_digit_chars)
  then have 2: "re_sub (''_v'', []) s = s" using nl by (rule re_sub_no_match)
  have "matchAtEnd '' ('' '')'' s = None"
    unfolding s_def using matchAtEnd_paren_on_digit [of "'' (''" "f @ '' v''" n] by simp
  then have 3: "re_sub ('' ('', '')'') s = s" using nl by (rule re_sub_no_match)
  have ne: "f \<noteq> s" by (simp add: s_def)
  have "possible_filenames s = [s, f]"
    unfolding possible_filenames_unfold 1 2 3 using ne by simp
  then show ?thesis by (simp add: s_def)
qed

lemma candidates_underscore_v:
  "possible_filenames (f @ ''_v'' @ show_nat n) = [f @ ''_v'' @ show_nat n, f]"
proof -
  define s where "s = f @ ''_v'' @ show_nat n"
  have nl: "s = [] \<or> last s \<noteq> CHR 0x0A"
    using last_show_nat [of "f @ ''_v''" n] by (intro not_line_feed) (simp add: s_def)
  have 2: "re_sub (''_v'', []) s = f"
    unfolding s_def using re_sub_strips [of "''_v''" "''_''" "CHR ''v''" "[]" f n]
    by (simp add: not_digit_chars)
  have "matchAtEnd '' v'' [] s = None"
    unfolding s_def by (rule matchAtEnd_other_lead [of _ "''_''" "CHR ''v''"]) (simp_all add: not_digit_chars)
  then have 1: "re_sub ('' v'', []) s = s" using nl by (rule re_sub_no_match)
  have "matchAtEnd '' ('' '')'' s = None"
    unfolding s_def using matchAtEnd_paren_on_digit [of "'' (''" "f @ ''_v''" n] by simp
  then have 3: "re_sub ('' ('', '')'') s = s" using nl by (rule re_sub_no_match)
  have ne: "f \<noteq> s" by (simp add: s_def)
  have "possible_filenames s = [s, f]"
    unfolding possible_filenames_unfold 1 2 3 using ne by simp
  then show ?thesis by (simp add: s_def)
qed

lemma candidates_paren:
  "possible_filenames (f @ '' ('' @ show_nat n @ '')'') = [f @ '' ('' @ show_nat n @ '')'', f]"
proof -
  define s where "s = f @ '' ('' @ show_nat n @ '')''"
  have nl: "s = [] \<or> last s \<noteq> CHR 0x0A"
    by (intro not_line_feed) (simp add: s_def)
  have 3: "re_sub ('' ('', '')'') s = f"
    unfolding s_def using re_sub_strips [of "'' (''" "'' ''" "CHR ''(''" "'')''" f n]
    by (simp add: not_digit_chars)
  have m: "matchAtEnd lead [] s = None" for lead
    unfolding s_def using matchAtEnd_digits_on_paren [of lead "f @ '' ('' @ show_nat n"] by simp
  have 1: "re_sub ('' v'', []) s = s" using m nl by (rule re_sub_no_match)
  have 2: "re_sub (''_v'', []) s = s" using m nl by (rule re_sub_no_match)
  have ne: "f \<noteq> s" by (simp add: s_def)
  have "possible_filenames s = [s, f]"
    unfolding possible_filenames_unfold 1 2 3 using ne by simp
  then show ?thesis by (simp add: s_def)
qed

lemma load_first_find:
  "load_first load names = Option.bind (find (\<lambda>name. load name \<noteq> None) names) load"
  by (induction names) (auto split: option.splits)

lemma keyPath_append: "keyPath a u s (f @ sfx) = keyPath a u s f @ sfx"
  by (simp add: keyPath_def)

lemma not_under_suffixed_prefix:
  assumes "sfx \<noteq> []" and "hd sfx \<noteq> CHR ''/''"
  shows "\<not> startsWith (P @ ''/v'' @ x) (P @ sfx @ ''/v'')"
proof
  assume "startsWith (P @ ''/v'' @ x) (P @ sfx @ ''/v'')"
  then obtain r where "P @ ''/v'' @ x = (P @ sfx @ ''/v'') @ r" unfolding startsWith_iff by blast
  then have "''/v'' @ x = sfx @ ''/v'' @ r" by simp
  with assms show False by (cases sfx) auto
qed

text \<open>
  Claim C7 says that a load by file name strips version suffixes and therefore succeeds for
  \<^verbatim>\<open>report.pdf\<close>, \<^verbatim>\<open>report.pdf v3\<close>, \<^verbatim>\<open>report.pdf_v3\<close> and \<^verbatim>\<open>report.pdf (3)\<close> once
  \<^verbatim>\<open>report.pdf\<close> is saved at version 3. \<^verbatim>\<open>loadArtifact\<close> strips nothing. Evaluated: after
  three saves of \<^verbatim>\<open>report.pdf\<close> (versions 1, 2, 3) the load of \<^verbatim>\<open>report.pdf\<close> gives the
  bytes of the third save, and the loads of the three other names give \<^verbatim>\<open>null\<close>.
\<close>

theorem suffixed_names_do_not_load_counterexample:
  "(case saveSequence store0 ''app'' ''u1'' ''report.pdf'' (Some ''s1'') threeSaves of
      Inl e \<Rightarrow> None
    | Inr (vs, b') \<Rightarrow>
        Some (vs, map (\<lambda>filename. map_option p_data
                         (loadArtifact noJson b' ''app'' ''u1'' filename None (Some ''s1'')))
                      [''report.pdf'', ''report.pdf v3'', ''report.pdf_v3'', ''report.pdf (3)'']))
   = Some ([Num 1, Num 2, Num 3], [Some (Some (Buffer ''three'')), None, None, None])"
  by code_simp

text \<open>
  Claim C7 as amended. \<^verbatim>\<open>loadArtifact\<close> resolves the file name as given. After N > 0 saves
  of a file name \<open>f\<close> under the conditions of claim C4 (listing and write answered,
  \<open>m + N < 2^53\<close>): the load of \<open>f\<close> without a version gives the part of the last save;
  the load of \<open>f\<close> at version \<open>m+k\<close> gives the part of the k-th save; and the load of \<open>f\<close>
  followed by any non-empty suffix that does not start with a slash (so \<open>f v3\<close>, \<open>f_v3\<close>,
  \<open>f (3)\<close>) gives \<^verbatim>\<open>null\<close> for every version argument, unless the bucket already held an
  object under that longer name. The candidate list of the claim is the backend tool's
  (\<^verbatim>\<open>README.md\<close>): the name as given first, then each stripped variant that differs; it is
  \<open>[input, f]\<close> for the inputs \<open>f v<n>\<close>, \<open>f_v<n>\<close> and \<open>f (<n>)\<close>; the tool calls its own
  loader on the candidates in order and stops at the first call that does not raise.
\<close>

theorem load_resolves_the_name_as_given:
  assumes "online b" and "objectsOnline b"
    and "greatestVersion b (keyPath a u s f) m"
    and "m + length calls < 2 ^ 53"
    and "calls \<noteq> []"
  shows "(\<exists>b'. saveSequence b a u f s calls = Inr (map Num [m + 1 ..< m + 1 + length calls], b')
            \<and> loadArtifact json_fields b' a u f None s = Some (loadedPart (snd (last calls)))
            \<and> (\<forall>k < length calls.
                  loadArtifact json_fields b' a u f (Some (Num (m + 1 + k))) s
                    = Some (loadedPart (snd (calls ! k))))
            \<and> (\<forall>sfx version.
                  sfx \<noteq> [] \<and> hd sfx \<noteq> CHR ''/''
                  \<and> (\<forall>name \<in> fst ` set (objects b).
                         \<not> startsWith name (keyPath a u s (f @ sfx) @ ''/v''))
                  \<longrightarrow> loadArtifact json_fields b' a u (f @ sfx) version s = None))
       \<and> hd (possible_filenames f) = f
       \<and> possible_filenames (f @ '' v'' @ show_nat n) = [f @ '' v'' @ show_nat n, f]
       \<and> possible_filenames (f @ ''_v'' @ show_nat n) = [f @ ''_v'' @ show_nat n, f]
       \<and> possible_filenames (f @ '' ('' @ show_nat n @ '')'') = [f @ '' ('' @ show_nat n @ '')'', f]
       \<and> load_first load names = Option.bind (find (\<lambda>name. load name \<noteq> None) names) load"
proof -
  let ?P = "keyPath a u s f"
  let ?N = "length calls"
  from saveSequence_safe [OF assms(1-4)] obtain b' where
    sq: "saveSequence b a u f s calls = Inr (map Num [m + 1 ..< m + 1 + ?N], b')"
    and on': "online b'" "objectsOnline b'"
    and g': "greatestVersion b' ?P (m + ?N)"
    and ob: "\<And>k. k < ?N \<Longrightarrow> map_of (objects b') (?P @ ''/v'' @ show_nat (m + 1 + k))
                    = Some (storedObject f (calls ! k) (m + 1 + k))"
    and fr: "\<And>name. (\<forall>k < ?N. name \<noteq> ?P @ ''/v'' @ show_nat (m + 1 + k))
                  \<Longrightarrow> map_of (objects b') name = map_of (objects b) name"
    by blast
  have Npos: "0 < ?N" using assms(5) by simp
  have explicit: "loadArtifact json_fields b' a u f (Some (Num (m + 1 + k))) s
                    = Some (loadedPart (snd (calls ! k)))" if k: "k < ?N" for k
  proof -
    have small: "m + 1 + k < 2 ^ 53" using k assms(4) by simp
    have ts: "numberToString (Num (m + 1 + k)) = show_nat (m + 1 + k)"
      using small by (rule numberToString_small)
    have st: "map_of (objects b') (?P @ ''/v'' @ show_nat (m + 1 + k))
                = Some (storedObject f (fst (calls ! k), snd (calls ! k)) (m + 1 + k))"
      using ob [OF k] by simp
    show ?thesis
      by (rule loadArtifact_at_path [OF on'(2) ts st]) simp
  qed
  have latest: "loadArtifact json_fields b' a u f None s = Some (loadedPart (snd (last calls)))"
  proof -
    have lt: "?N - 1 < ?N" using Npos by simp
    have idx: "m + 1 + (?N - 1) = m + ?N" using Npos by simp
    have small: "m + ?N < 2 ^ 53" using assms(4) .
    have ts: "numberToString (Num (m + ?N)) = show_nat (m + ?N)"
      using small by (rule numberToString_small)
    have lst: "calls ! (?N - 1) = last calls" using assms(5) by (simp add: last_conv_nth)
    have st: "map_of (objects b') (?P @ ''/v'' @ show_nat (m + ?N))
                = Some (storedObject f (fst (last calls), snd (last calls)) (m + ?N))"
      using ob [OF lt] unfolding idx lst by simp
    have "0 < m + ?N" using Npos by simp
    with on'(1) g' have "listVersions b' a u f s \<noteq> []" by (rule listVersions_nonempty)
    then obtain v vs where lv: "listVersions b' a u f s = v # vs" by (cases "listVersions b' a u f s") auto
    from on'(1) g' small lv have mx: "mathMax v vs = Num (m + ?N)" by (rule listVersions_max)
    show ?thesis
      by (rule loadArtifact_at_path [OF on'(2) ts st]) (use lv mx in simp)
  qed
  have absent: "loadArtifact json_fields b' a u (f @ sfx) version s = None"
    if sfx: "sfx \<noteq> []" "hd sfx \<noteq> CHR ''/''"
      and none: "\<forall>name \<in> fst ` set (objects b). \<not> startsWith name (keyPath a u s (f @ sfx) @ ''/v'')"
    for sfx version
  proof (rule loadArtifact_absent, intro ballI)
    fix name assume nm: "name \<in> fst ` set (objects b')"
    then have present: "map_of (objects b') name \<noteq> None" by (metis map_of_eq_None_iff)
    show "\<not> startsWith name (keyPath a u s (f @ sfx) @ ''/v'')"
    proof (cases "\<exists>k < ?N. name = ?P @ ''/v'' @ show_nat (m + 1 + k)")
      case True
      then obtain k where "name = ?P @ ''/v'' @ show_nat (m + 1 + k)" by blast
      then show ?thesis
        using not_under_suffixed_prefix [OF sfx, of ?P "show_nat (m + 1 + k)"]
        by (simp add: keyPath_append)
    next
      case False
      then have "map_of (objects b') name = map_of (objects b) name" by (intro fr) blast
      with present have "map_of (objects b) name \<noteq> None" by simp
      then have "name \<in> fst ` set (objects b)" by (metis map_of_eq_None_iff)
      with none show ?thesis by blast
    qed
  qed
  have hd0: "hd (possible_filenames f) = f" by (simp add: possible_filenames_def)
  from sq latest explicit absent have main:
    "\<exists>b'. saveSequence b a u f s calls = Inr (map Num [m + 1 ..< m + 1 + length calls], b')
            \<and> loadArtifact json_fields b' a u f None s = Some (loadedPart (snd (last calls)))
            \<and> (\<forall>k < length calls.
                  loadArtifact json_fields b' a u f (Some (Num (m + 1 + k))) s
                    = Some (loadedPart (snd (calls ! k))))
            \<and> (\<forall>sfx version.
                  sfx \<noteq> [] \<and> hd sfx \<noteq> CHR ''/''
                  \<and> (\<forall>name \<in> fst ` set (objects b).
                         \<not> startsWith name (keyPath a u s (f @ sfx) @ ''/v''))
                  \<longrightarrow> loadArtifact json_fields b' a u (f @ sfx) version s = None)"
    by blast
  from main hd0 candidates_space_v [of f n] candidates_underscore_v [of f n] candidates_paren [of f n]
    load_first_find [of load names]
  show ?thesis by blast
qed

theorem load_resolves_the_name_as_given_witness:
  "online store0 \<and> objectsOnline store0
   \<and> greatestVersion store0 (keyPath ''app'' ''u1'' (Some ''s1'') ''report.pdf'') 0
   \<and> 0 + length threeSaves < (2::nat) ^ 53
   \<and> threeSaves \<noteq> []
   \<and> (\<exists>b'. saveSequence store0 ''app'' ''u1'' ''report.pdf'' (Some ''s1'') threeSaves
              = Inr ([Num 1, Num 2, Num 3], b')
          \<and> loadArtifact noJson b' ''app'' ''u1'' ''report.pdf'' None (Some ''s1'')
              = Some \<lparr> p_mimeType = Some ''application/pdf'', p_data = Some (Buffer ''three''),
                       p_inline_data = Some (Some ''application/pdf'', Some (Buffer ''three'')) \<rparr>
          \<and> loadArtifact noJson b' ''app'' ''u1'' ''report.pdf'' (Some (Num 1)) (Some ''s1'')
              = Some \<lparr> p_mimeType = Some ''application/pdf'', p_data = Some (Buffer ''one''),
                       p_inline_data = Some (Some ''application/pdf'', Some (Buffer ''one'')) \<rparr>
          \<and> loadArtifact noJson b' ''app'' ''u1'' ''report.pdf v3'' None (Some ''s1'') = None
          \<and> loadArtifact noJson b' ''app'' ''u1'' ''report.pdf_v3'' None (Some ''s1'') = None
          \<and> loadArtifact noJson b' ''app'' ''u1'' ''report.pdf (3)'' None (Some ''s1'') = None)
   \<and> possible_filenames ''report.pdf'' = [''report.pdf'']
   \<and> possible_filenames ''report.pdf v3'' = [''report.pdf v3'', ''report.pdf'']
   \<and> possible_filenames ''report.pdf_v3'' = [''report.pdf_v3'', ''report.pdf'']
   \<and> possible_filenames ''report.pdf (3)'' = [''report.pdf (3)'', ''report.pdf'']"
proof -
  have on: "online store0" "objectsOnline store0" by (simp_all add: store0_def)
  have g: "greatestVersion store0 (keyPath ''app'' ''u1'' (Some ''s1'') ''report.pdf'') 0"
    by (simp add: greatestVersion_def existingVersions_def store0_def)
  have len: "length threeSaves = 3" by (simp add: threeSaves_def)
  have safe: "0 + length threeSaves < (2::nat) ^ 53" by (simp add: len)
  have ne: "threeSaves \<noteq> []" by (simp add: threeSaves_def)
  have up: "[0 + 1 ..< 0 + 1 + length threeSaves] = [1, 2, 3]" by (simp add: len upt_rec)
  have lst: "snd (last threeSaves) = pdfPart ''three''" "snd (threeSaves ! 0) = pdfPart ''one''"
    by (simp_all add: threeSaves_def)
  have lp: "loadedPart (pdfPart bytes) =
              \<lparr> p_mimeType = Some ''application/pdf'', p_data = Some (Buffer bytes),
                p_inline_data = Some (Some ''application/pdf'', Some (Buffer bytes)) \<rparr>" for bytes
    by (simp add: loadedPart_def pdfPart_def truthy_def Let_def)
  have empty: "\<forall>name \<in> fst ` set (objects store0).
                 \<not> startsWith name (keyPath ''app'' ''u1'' (Some ''s1'') (''report.pdf'' @ sfx) @ ''/v'')" for sfx
    by (simp add: store0_def)
  note th = load_resolves_the_name_as_given [OF on g safe ne,
      where json_fields = noJson and n = 3 and load = "\<lambda>name. None :: unit option" and names = "[]"]
  from th obtain b' where
    sq: "saveSequence store0 ''app'' ''u1'' ''report.pdf'' (Some ''s1'') threeSaves
           = Inr (map Num [0 + 1 ..< 0 + 1 + length threeSaves], b')"
    and latest: "loadArtifact noJson b' ''app'' ''u1'' ''report.pdf'' None (Some ''s1'')
           = Some (loadedPart (snd (last threeSaves)))"
    and explicit: "\<And>k. k < length threeSaves \<Longrightarrow>
           loadArtifact noJson b' ''app'' ''u1'' ''report.pdf'' (Some (Num (0 + 1 + k))) (Some ''s1'')
             = Some (loadedPart (snd (threeSaves ! k)))"
    and absent: "\<And>sfx version. sfx \<noteq> [] \<and> hd sfx \<noteq> CHR ''/''
           \<and> (\<forall>name \<in> fst ` set (objects store0).
                  \<not> startsWith name (keyPath ''app'' ''u1'' (Some ''s1'') (''report.pdf'' @ sfx) @ ''/v''))
           \<Longrightarrow> loadArtifact noJson b' ''app'' ''u1'' (''report.pdf'' @ sfx) version (Some ''s1'') = None"
    by blast
  have r0: "saveSequence store0 ''app'' ''u1'' ''report.pdf'' (Some ''s1'') threeSaves
              = Inr ([Num 1, Num 2, Num 3], b')" using sq unfolding up by simp
  have r1: "loadArtifact noJson b' ''app'' ''u1'' ''report.pdf'' None (Some ''s1'')
              = Some \<lparr> p_mimeType = Some ''application/pdf'', p_data = Some (Buffer ''three''),
                       p_inline_data = Some (Some ''application/pdf'', Some (Buffer ''three'')) \<rparr>"
    using latest by (simp add: lst lp)
  have r2: "loadArtifact noJson b' ''app'' ''u1'' ''report.pdf'' (Some (Num 1)) (Some ''s1'')
              = Some \<lparr> p_mimeType = Some ''application/pdf'', p_data = Some (Buffer ''one''),
                       p_inline_data = Some (Some ''application/pdf'', Some (Buffer ''one'')) \<rparr>"
    using explicit [of 0] by (simp add: len lst lp)
  have r3: "loadArtifact noJson b' ''app'' ''u1'' ''report.pdf v3'' None (Some ''s1'') = None"
    using absent [of "'' v3''" None] empty [of "'' v3''"] by simp
  have r4: "loadArtifact noJson b' ''app'' ''u1'' ''report.pdf_v3'' None (Some ''s1'') = None"
    using absent [of "''_v3''" None] empty [of "''_v3''"] by simp
  have r5: "loadArtifact noJson b' ''app'' ''u1'' ''report.pdf (3)'' None (Some ''s1'') = None"
    using absent [of "'' (3)''" None] empty [of "'' (3)''"] by simp
  have c0: "possible_filenames ''report.pdf'' = [''report.pdf'']" by code_simp
  from th have c1: "possible_filenames ''report.pdf v3'' = [''report.pdf v3'', ''report.pdf'']"
    and c2: "possible_filenames ''report.pdf_v3'' = [''report.pdf_v3'', ''report.pdf'']"
    and c3: "possible_filenames ''report.pdf (3)'' = [''report.pdf (3)'', ''report.pdf'']"
    by (simp_all add: show_nat_small)
  from on g safe ne r0 r1 r2 r3 r4 r5 c0 c1 c2 c3 show ?thesis by blast
qed

section \<open>Properties of the aggregator\<close>

lemma textOfEvent_nonempty: "textOfEvent e = Some t \<Longrightarrow> t \<noteq> []"
  by (auto simp: textOfEvent_def truthy_def find_Some_iff split: option.splits)

lemma lineText_nonempty: "lineText l = Some t \<Longrightarrow> t \<noteq> []"
  by (cases l) (auto simp: lineText_def textOfEvent_nonempty)

lemma latestText_Nil: "latestText fr [] = fr"
  by (simp add: latestText_def List.map_filter_simps)

lemma latestText_Cons:
  "latestText fr (l # ls) = latestText (case lineText l of Some t \<Rightarrow> t | None \<Rightarrow> fr) ls"
  by (cases "lineText l"; cases "List.map_filter lineText ls")
     (simp_all add: latestText_def List.map_filter_simps)

lemma latestText_empty_iff:
  "latestText fr ls = [] \<longleftrightarrow> (fr = [] \<and> list_all (\<lambda>l. lineText l = None) ls)"
proof (induction ls arbitrary: fr)
  case Nil
  show ?case by (simp add: latestText_Nil)
next
  case (Cons l ls)
  show ?case
    unfolding latestText_Cons Cons.IH
    by (cases "lineText l") (auto dest: lineText_nonempty)
qed

lemma processLines_step:
  "processLines st (l # ls) =
     (let st1 = (case lineText l of Some t \<Rightarrow> st\<lparr>fullResponse := t, hasStarted := True\<rparr> | None \<Rightarrow> st)
      in if lineFinal l \<and> fullResponse st1 \<noteq> [] then settle st1 (Resolved (fullResponse st1))
         else processLines st1 ls)"
  by (cases l) (simp_all add: lineText_def lineFinal_def Let_def)

lemma processLines_partial:
  assumes "list_all (\<lambda>l. \<not> lineFinal l) ls"
  shows "processLines st ls =
           st\<lparr>fullResponse := latestText (fullResponse st) ls,
              hasStarted := (hasStarted st \<or> \<not> list_all (\<lambda>l. lineText l = None) ls)\<rparr>"
  using assms
proof (induction ls arbitrary: st)
  case Nil
  then show ?case by (simp add: latestText_Nil)
next
  case (Cons l ls)
  then show ?case
    unfolding processLines_step latestText_Cons
    by (cases "lineText l") (simp_all add: Let_def)
qed

lemma processLines_finalizes:
  assumes "list_all (\<lambda>l. \<not> lineFinal l) pre" and "lineFinal l"
    and "latestText (fullResponse st) (pre @ [l]) \<noteq> []" and "outcome st = None"
  shows "outcome (processLines st (pre @ l # post))
           = Some (Resolved (latestText (fullResponse st) (pre @ [l])))"
  using assms
proof (induction pre arbitrary: st)
  case Nil
  then show ?case
    unfolding append_Nil processLines_step latestText_Cons latestText_Nil
    by (cases "lineText l") (simp_all add: Let_def settle_def)
next
  case (Cons p pre)
  let ?st1 = "case lineText p of Some t \<Rightarrow> st\<lparr>fullResponse := t, hasStarted := True\<rparr> | None \<Rightarrow> st"
  have np: "\<not> lineFinal p" and rest: "list_all (\<lambda>l. \<not> lineFinal l) pre" using Cons.prems(1) by simp_all
  have step: "processLines st ((p # pre) @ l # post) = processLines ?st1 (pre @ l # post)"
    using np by (simp add: processLines_step Let_def)
  have fr: "fullResponse ?st1 = (case lineText p of Some t \<Rightarrow> t | None \<Rightarrow> fullResponse st)"
    by (cases "lineText p") simp_all
  have oc: "outcome ?st1 = None" using Cons.prems(4) by (cases "lineText p") simp_all
  have lt: "latestText (fullResponse st) ((p # pre) @ [l]) = latestText (fullResponse ?st1) (pre @ [l])"
    by (simp add: latestText_Cons fr)
  from Cons.IH [OF rest Cons.prems(2) _ oc] Cons.prems(3)
  show ?case unfolding step lt by simp
qed

lemma processLines_silent_final:
  assumes "list_all (\<lambda>l. \<not> lineFinal l) pre" and "lineFinal l"
    and "latestText (fullResponse st) (pre @ [l]) = []"
  shows "processLines st (pre @ l # post) = processLines st post"
  using assms
proof (induction pre arbitrary: st)
  case Nil
  then have "fullResponse st = []" and "lineText l = None"
    by (simp_all add: latestText_empty_iff)
  then show ?case by (simp add: processLines_step)
next
  case (Cons p pre)
  then have e: "fullResponse st = []" and n: "lineText p = None"
    by (simp_all add: latestText_empty_iff)
  have np: "\<not> lineFinal p" using Cons.prems(1) by simp
  have step: "processLines st ((p # pre) @ l # post) = processLines st (pre @ l # post)"
    using np n by (simp add: processLines_step)
  have "latestText (fullResponse st) (pre @ [l]) = []"
    using Cons.prems(3) n by (simp add: latestText_Cons)
  with Cons.IH Cons.prems show ?case unfolding step by simp
qed

lemma settle_outcome: "outcome (settle st r) = (if outcome st = None then Some r else outcome st)"
  by (simp add: settle_def)

lemma settle_fields [simp]:
  "fullResponse (settle st r) = fullResponse st" "hasStarted (settle st r) = hasStarted st"
  "buffer (settle st r) = buffer st"
  by (simp_all add: settle_def)

lemma processLines_settled: "outcome st \<noteq> None \<Longrightarrow> outcome (processLines st ls) = outcome st"
proof (induction ls arbitrary: st)
  case Nil
  then show ?case by simp
next
  case (Cons l ls)
  let ?st1 = "case lineText l of Some t \<Rightarrow> st\<lparr>fullResponse := t, hasStarted := True\<rparr> | None \<Rightarrow> st"
  have o1: "outcome ?st1 = outcome st" by (cases "lineText l") simp_all
  show ?case
    unfolding processLines_step Let_def
    using Cons.IH [of ?st1] Cons.prems o1 by (auto simp: settle_outcome)
qed

lemma handleSignal_settled:
  "outcome st \<noteq> None \<Longrightarrow> outcome (handleSignal decode st s) = outcome st"
proof (cases s)
  case (FromStream e)
  assume a: "outcome st \<noteq> None"
  show ?thesis
  proof (cases e)
    case (Data chunk)
    with FromStream a show ?thesis
      by (simp add: onData_def Let_def processLines_settled)
  next
    case End
    with FromStream a show ?thesis by (auto simp: onEnd_def settle_outcome)
  next
    case (Error err)
    with FromStream a show ?thesis by (auto simp: onError_def settle_outcome)
  qed
next
  case TimerFired
  assume "outcome st \<noteq> None"
  with TimerFired show ?thesis by (auto simp: onTimeout_def settle_outcome)
qed

lemma runSignals_settled:
  "outcome st \<noteq> None \<Longrightarrow> outcome (runSignals decode st sigs) = outcome st"
  unfolding runSignals_def
  by (induction sigs arbitrary: st) (simp_all add: handleSignal_settled)

lemma runSignals_append:
  "runSignals decode st (a @ b) = runSignals decode (runSignals decode st a) b"
  by (simp add: runSignals_def)

lemma runSignals_Cons:
  "runSignals decode st (s # sigs) = runSignals decode (handleSignal decode st s) sigs"
  by (simp add: runSignals_def)

lemma processLines_inv: "streamInv st \<Longrightarrow> streamInv (processLines st ls)"
proof (induction ls arbitrary: st)
  case Nil
  then show ?case by simp
next
  case (Cons l ls)
  let ?st1 = "case lineText l of Some t \<Rightarrow> st\<lparr>fullResponse := t, hasStarted := True\<rparr> | None \<Rightarrow> st"
  have i1: "streamInv ?st1"
    using Cons.prems by (cases "lineText l") (auto simp: streamInv_def dest: lineText_nonempty)
  show ?case
    unfolding processLines_step Let_def
    using Cons.IH [OF i1] i1 by (auto simp: streamInv_def settle_outcome)
qed

lemma handleSignal_inv: "streamInv st \<Longrightarrow> streamInv (handleSignal decode st s)"
proof (cases s)
  case (FromStream e)
  assume a: "streamInv st"
  show ?thesis
  proof (cases e)
    case (Data chunk)
    have "streamInv (st\<lparr>buffer := last (split_on (CHR 0x0A) (buffer st @ chunk))\<rparr>)"
      using a by (simp add: streamInv_def)
    with FromStream Data show ?thesis by (simp add: onData_def Let_def processLines_inv)
  next
    case End
    with FromStream a show ?thesis
      by (auto simp: onEnd_def streamInv_def settle_outcome incompleteMessage_def)
  next
    case (Error err)
    with FromStream a show ?thesis by (auto simp: onError_def streamInv_def settle_outcome)
  qed
next
  case TimerFired
  assume "streamInv st"
  with TimerFired show ?thesis
    by (auto simp: onTimeout_def streamInv_def settle_outcome timedOutMessage_def)
qed

lemma runSignals_inv: "streamInv st \<Longrightarrow> streamInv (runSignals decode st sigs)"
  unfolding runSignals_def
  by (induction sigs arbitrary: st) (simp_all add: handleSignal_inv)

lemma initial_inv: "streamInv initialStreamState"
  by (simp add: streamInv_def initialStreamState_def)

lemma timer_in_schedule: "\<exists>a b. schedule d evs = a @ TimerFired # b"
  by (auto simp: schedule_def)

lemma settles_at:
  assumes "sigs = a @ s # b" and "outcome (handleSignal decode (runSignals decode st a) s) \<noteq> None"
  shows "outcome (runSignals decode st sigs) = outcome (handleSignal decode (runSignals decode st a) s)"
  using assms by (simp add: runSignals_append runSignals_Cons runSignals_settled)

lemma onTimeout_settles: "outcome (onTimeout st) \<noteq> None"
  by (simp add: onTimeout_def settle_outcome)

lemma always_settles: "\<exists>r. handleStreamingResponse decode t evs = Some r"
proof -
  obtain a b where s: "schedule (streamingTimeoutDelay t) evs = a @ TimerFired # b"
    using timer_in_schedule by blast
  have "outcome (handleSignal decode (runSignals decode initialStreamState a) TimerFired) \<noteq> None"
    by (simp add: onTimeout_settles)
  from settles_at [OF s this] this show ?thesis
    by (auto simp: handleStreamingResponse_def)
qed

lemma never_empty: "handleStreamingResponse decode t evs \<noteq> Some (Resolved [])"
  using runSignals_inv [OF initial_inv, of decode "schedule (streamingTimeoutDelay t) evs"]
  by (simp add: handleStreamingResponse_def streamInv_def)

lemma timer_while_pending:
  assumes "schedule (streamingTimeoutDelay t) evs = a @ TimerFired # b"
    and "outcome (runSignals decode initialStreamState a) = None"
  shows "handleStreamingResponse decode t evs =
           Some (Resolved (if hasStarted (runSignals decode initialStreamState a)
                           then fullResponse (runSignals decode initialStreamState a)
                           else timedOutMessage))"
proof -
  let ?st = "runSignals decode initialStreamState a"
  have inv: "streamInv ?st" by (rule runSignals_inv [OF initial_inv])
  have o: "outcome (handleSignal decode ?st TimerFired) =
             Some (Resolved (if hasStarted ?st then fullResponse ?st else timedOutMessage))"
    using assms(2) inv by (simp add: onTimeout_def settle_outcome streamInv_def)
  then have "outcome (handleSignal decode ?st TimerFired) \<noteq> None" by simp
  from settles_at [OF assms(1) this] o show ?thesis by (simp add: handleStreamingResponse_def)
qed

lemma end_while_pending:
  assumes "schedule (streamingTimeoutDelay t) evs = a @ FromStream End # b"
    and "outcome (runSignals decode initialStreamState a) = None"
  shows "handleStreamingResponse decode t evs =
           Some (Resolved (if hasStarted (runSignals decode initialStreamState a)
                           then fullResponse (runSignals decode initialStreamState a)
                           else incompleteMessage))"
proof -
  let ?st = "runSignals decode initialStreamState a"
  have inv: "streamInv ?st" by (rule runSignals_inv [OF initial_inv])
  have o: "outcome (handleSignal decode ?st (FromStream End)) =
             Some (Resolved (if hasStarted ?st then fullResponse ?st else incompleteMessage))"
    using assms(2) inv by (simp add: onEnd_def settle_outcome streamInv_def)
  then have "outcome (handleSignal decode ?st (FromStream End)) \<noteq> None" by simp
  from settles_at [OF assms(1) this] o show ?thesis by (simp add: handleStreamingResponse_def)
qed

lemma split_on_append:
  "split_on d (a @ b) = butlast (split_on d a) @ split_on d (last (split_on d a) @ b)"
proof (induction a)
  case Nil
  show ?case by simp
next
  case (Cons c a)
  let ?S = "split_on d a"
  have ne: "?S \<noteq> []" by (rule split_on_nonempty)
  show ?case
  proof (cases "c = d")
    case True
    then show ?thesis using Cons ne by (simp add: Let_def)
  next
    case False
    show ?thesis
    proof (cases "tl ?S = []")
      case True
      then have S: "?S = [hd ?S]" using ne by (cases ?S) auto
      then have bl: "butlast ?S = []" and la: "last ?S = hd ?S"
        by (metis butlast.simps(2), metis last.simps)
      show ?thesis
        using False Cons bl la True by (simp add: Let_def)
    next
      case nt: False
      then obtain x y ys where S: "?S = x # y # ys" using ne
        by (cases ?S; cases "tl ?S") auto
      show ?thesis
        using False Cons S by (simp add: Let_def)
    qed
  qed
qed

lemma last_split_on_no_delim: "d \<notin> set (last (split_on d s))"
proof (induction s)
  case Nil
  show ?case by simp
next
  case (Cons c s)
  have ne: "split_on d s \<noteq> []" by (rule split_on_nonempty)
  show ?case
  proof (cases "tl (split_on d s) = []")
    case True
    then have "split_on d s = [hd (split_on d s)]" using ne by (cases "split_on d s") auto
    then have "last (split_on d s) = hd (split_on d s)" by (metis last.simps)
    with Cons True ne show ?thesis by (auto simp: Let_def)
  next
    case False
    then have "last (tl (split_on d s)) = last (split_on d s)" by (simp add: last_tl)
    with Cons ne False show ?thesis by (auto simp: Let_def)
  qed
qed

lemma processLines_step_final:
  assumes "st1 = (case lineText l of Some t \<Rightarrow> st\<lparr>fullResponse := t, hasStarted := True\<rparr> | None \<Rightarrow> st)"
    and "lineFinal l" and "fullResponse st1 \<noteq> []"
  shows "processLines st (l # ls) = settle st1 (Resolved (fullResponse st1))"
  unfolding processLines_step Let_def assms(1) [symmetric] using assms(2,3) by simp

lemma processLines_step_cont:
  assumes "st1 = (case lineText l of Some t \<Rightarrow> st\<lparr>fullResponse := t, hasStarted := True\<rparr> | None \<Rightarrow> st)"
    and "\<not> (lineFinal l \<and> fullResponse st1 \<noteq> [])"
  shows "processLines st (l # ls) = processLines st1 ls"
  unfolding processLines_step Let_def assms(1) [symmetric] using assms(2) by (simp only: if_False)

lemma settle_buffer: "settle (st\<lparr>buffer := x\<rparr>) r = (settle st r)\<lparr>buffer := x\<rparr>"
  by (simp add: settle_def)

lemma processLines_buffer:
  "processLines (st\<lparr>buffer := x\<rparr>) ls = (processLines st ls)\<lparr>buffer := x\<rparr>"
proof (induction ls arbitrary: st)
  case Nil
  show ?case by simp
next
  case (Cons l ls)
  define st1 where "st1 = (case lineText l of Some t \<Rightarrow> st\<lparr>fullResponse := t, hasStarted := True\<rparr> | None \<Rightarrow> st)"
  have st1b: "st1\<lparr>buffer := x\<rparr> =
     (case lineText l of Some t \<Rightarrow> (st\<lparr>buffer := x\<rparr>)\<lparr>fullResponse := t, hasStarted := True\<rparr>
                        | None \<Rightarrow> st\<lparr>buffer := x\<rparr>)"
    unfolding st1_def by (cases "lineText l") simp_all
  have fr: "fullResponse (st1\<lparr>buffer := x\<rparr>) = fullResponse st1" by simp
  show ?case
  proof (cases "lineFinal l \<and> fullResponse st1 \<noteq> []")
    case True
    then have "processLines st (l # ls) = settle st1 (Resolved (fullResponse st1))"
      using processLines_step_final [OF st1_def] by blast
    moreover have "processLines (st\<lparr>buffer := x\<rparr>) (l # ls)
                     = settle (st1\<lparr>buffer := x\<rparr>) (Resolved (fullResponse (st1\<lparr>buffer := x\<rparr>)))"
      using processLines_step_final [OF st1b] True fr by metis
    ultimately show ?thesis by (simp add: settle_buffer)
  next
    case False
    then have "processLines st (l # ls) = processLines st1 ls"
      using processLines_step_cont [OF st1_def] by blast
    moreover have "processLines (st\<lparr>buffer := x\<rparr>) (l # ls) = processLines (st1\<lparr>buffer := x\<rparr>) ls"
      using processLines_step_cont [OF st1b] False fr by metis
    ultimately show ?thesis using Cons [of st1] by simp
  qed
qed

lemma processLines_append:
  "outcome (processLines (processLines st l1) l2) = outcome (processLines st (l1 @ l2))
   \<and> (outcome (processLines st (l1 @ l2)) = None \<longrightarrow>
        processLines (processLines st l1) l2 = processLines st (l1 @ l2))"
proof (induction l1 arbitrary: st)
  case Nil
  show ?case by simp
next
  case (Cons l l1)
  define st1 where "st1 = (case lineText l of Some t \<Rightarrow> st\<lparr>fullResponse := t, hasStarted := True\<rparr> | None \<Rightarrow> st)"
  show ?case
  proof (cases "lineFinal l \<and> fullResponse st1 \<noteq> []")
    case True
    then have a: "processLines st (l # l1) = settle st1 (Resolved (fullResponse st1))"
      and b: "processLines st ((l # l1) @ l2) = settle st1 (Resolved (fullResponse st1))"
      using processLines_step_final [OF st1_def] by simp_all
    have ne: "outcome (settle st1 (Resolved (fullResponse st1))) \<noteq> None"
      by (simp add: settle_outcome)
    then have "outcome (processLines (settle st1 (Resolved (fullResponse st1))) l2)
                 = outcome (settle st1 (Resolved (fullResponse st1)))"
      by (rule processLines_settled)
    with ne show ?thesis unfolding a b by blast
  next
    case False
    then have a: "processLines st (l # l1) = processLines st1 l1"
      and b: "processLines st ((l # l1) @ l2) = processLines st1 (l1 @ l2)"
      using processLines_step_cont [OF st1_def] by simp_all
    show ?thesis unfolding a b by (rule Cons.IH)
  qed
qed

lemma processLines_keeps_buffer: "buffer (processLines st ls) = buffer st"
proof (induction ls arbitrary: st)
  case Nil
  show ?case by simp
next
  case (Cons l ls)
  show ?case
    unfolding processLines_step
    by (cases "lineText l") (simp_all add: Let_def Cons)
qed

lemma chunks_as_lines:
  assumes "CHR 0x0A \<notin> set (buffer st)"
  shows "outcome (foldl (onData decode) st cs)
           = outcome (processLines st (completeLines decode (buffer st @ concat cs)))
       \<and> buffer (foldl (onData decode) st cs) = last (split_on (CHR 0x0A) (buffer st @ concat cs))
       \<and> (outcome (processLines st (completeLines decode (buffer st @ concat cs))) = None \<longrightarrow>
            foldl (onData decode) st cs =
              (processLines st (completeLines decode (buffer st @ concat cs)))
                \<lparr>buffer := last (split_on (CHR 0x0A) (buffer st @ concat cs))\<rparr>)"
  using assms
proof (induction cs arbitrary: st)
  case Nil
  then have "split_on (CHR 0x0A) (buffer st) = [buffer st]" by (rule split_on_no_delim)
  then show ?case by (simp add: completeLines_def)
next
  case (Cons c cs)
  let ?nl = "CHR 0x0A"
  let ?L = "split_on ?nl (buffer st @ c)"
  let ?A = "map (classifyLine decode) (butlast ?L)"
  let ?st1 = "onData decode st c"
  let ?B = "completeLines decode (last ?L @ concat cs)"
  let ?ref = "processLines st (completeLines decode (buffer st @ concat (c # cs)))"
  have st1: "?st1 = processLines (st\<lparr>buffer := last ?L\<rparr>) ?A" by (simp add: onData_def Let_def)
  have b1: "buffer ?st1 = last ?L" unfolding st1 by (simp add: processLines_keeps_buffer)
  have nd: "?nl \<notin> set (buffer ?st1)" unfolding b1 by (rule last_split_on_no_delim)
  note IH = Cons.IH [OF nd, unfolded b1]
  have sp: "split_on ?nl (buffer st @ concat (c # cs)) = butlast ?L @ split_on ?nl (last ?L @ concat cs)"
    using split_on_append [of ?nl "buffer st @ c" "concat cs"] by simp
  have ne: "split_on ?nl (last ?L @ concat cs) \<noteq> []" by (rule split_on_nonempty)
  have lines: "completeLines decode (buffer st @ concat (c # cs)) = ?A @ ?B"
    unfolding completeLines_def sp using ne by (simp add: butlast_append)
  have la: "last (split_on ?nl (buffer st @ concat (c # cs))) = last (split_on ?nl (last ?L @ concat cs))"
    unfolding sp using ne by simp
  have ref1: "processLines ?st1 ?B = processLines (processLines (st\<lparr>buffer := last ?L\<rparr>) ?A) ?B"
    unfolding st1 ..
  note app = processLines_append [of "st\<lparr>buffer := last ?L\<rparr>" ?A ?B]
  have refb: "processLines (st\<lparr>buffer := last ?L\<rparr>) (?A @ ?B) = ?ref\<lparr>buffer := last ?L\<rparr>"
    unfolding lines by (rule processLines_buffer)
  have o: "outcome (processLines ?st1 ?B) = outcome ?ref"
    unfolding ref1 using app refb by simp
  have e: "processLines ?st1 ?B = ?ref\<lparr>buffer := last ?L\<rparr>" if "outcome ?ref = None"
    unfolding ref1 using app refb that by simp
  have f: "foldl (onData decode) st (c # cs) = foldl (onData decode) ?st1 cs" by simp
  show ?case
    unfolding f la using IH o e by auto
qed

lemma data_signals_fold:
  "runSignals decode st (map (\<lambda>c. FromStream (Data c)) cs) = foldl (onData decode) st cs"
  unfolding runSignals_def by (induction cs arbitrary: st) simp_all

lemma chunks_outcome:
  "outcome (runSignals decode initialStreamState (map (\<lambda>c. FromStream (Data c)) cs))
     = outcome (processLines initialStreamState (completeLines decode (concat cs)))"
proof -
  have "CHR 0x0A \<notin> set (buffer initialStreamState)" by (simp add: initialStreamState_def)
  from chunks_as_lines [OF this, of decode cs] show ?thesis
    by (simp add: data_signals_fold initialStreamState_def)
qed

text \<open>
  Claim C3 says that the first fragment with isPartial=false finalizes the result at once,
  and that the text of the latest fragment with a non-null text is kept. The listener
  resolves only when the event is not marked \<^verbatim>\<open>partial: true\<close> \<^emph>\<open>and\<close> the running text is
  non-empty, and it replaces the running text only by a non-empty text. Below, a first
  event that is final but carries no text leaves the promise pending, the text of the next
  event is read, and the stream's end delivers it; and an event with the empty text does
  not replace the running text.
\<close>

theorem first_final_without_text_counterexample:
  "outcome (processLines initialStreamState
      [Event \<lparr> ev_parts = None, ev_partial = Some False \<rparr>,
       Event (textEvent (Some True) ''Hello'')]) = None
   \<and> fullResponse (processLines initialStreamState
      [Event \<lparr> ev_parts = None, ev_partial = Some False \<rparr>,
       Event (textEvent (Some True) ''Hello'')]) = ''Hello''
   \<and> handleStreamingResponse decodeDemo 30000
        [(10, Data ''data: N\<newline>data: P:Hello\<newline>''), (20, End)] = Some (Resolved ''Hello'')
   \<and> handleStreamingResponse decodeDemo 30000
        [(10, Data ''data: P:Hello\<newline>data: P:\<newline>''), (20, End)] = Some (Resolved ''Hello'')"
proof -
  have 1: "outcome (processLines initialStreamState
      [Event \<lparr> ev_parts = None, ev_partial = Some False \<rparr>,
       Event (textEvent (Some True) ''Hello'')]) = None"
    by code_simp
  have 2: "fullResponse (processLines initialStreamState
      [Event \<lparr> ev_parts = None, ev_partial = Some False \<rparr>,
       Event (textEvent (Some True) ''Hello'')]) = ''Hello''"
    by code_simp
  have s3: "schedule (streamingTimeoutDelay 30000)
              [(10, Data ''data: N\<newline>data: P:Hello\<newline>''), (20, End)]
            = [FromStream (Data ''data: N\<newline>data: P:Hello\<newline>''), FromStream End, TimerFired]"
    by (simp add: schedule_def streamingTimeoutDelay_def)
  have 3: "handleStreamingResponse decodeDemo 30000
        [(10, Data ''data: N\<newline>data: P:Hello\<newline>''), (20, End)] = Some (Resolved ''Hello'')"
    unfolding handleStreamingResponse_def s3 by code_simp
  have s4: "schedule (streamingTimeoutDelay 30000)
              [(10, Data ''data: P:Hello\<newline>data: P:\<newline>''), (20, End)]
            = [FromStream (Data ''data: P:Hello\<newline>data: P:\<newline>''), FromStream End, TimerFired]"
    by (simp add: schedule_def streamingTimeoutDelay_def)
  have 4: "handleStreamingResponse decodeDemo 30000
        [(10, Data ''data: P:Hello\<newline>data: P:\<newline>''), (20, End)] = Some (Resolved ''Hello'')"
    unfolding handleStreamingResponse_def s4 by code_simp
  from 1 2 3 4 show ?thesis by blast
qed

text \<open>
  Claim C3 as amended. Read from the start of a stream, with \<open>lineFinal\<close> for "is an
  event not marked \<^verbatim>\<open>partial: true\<close>" and \<open>latestText\<close> for "the text of the latest line that
  carries a non-empty text":
  \<^item> while every line read is partial, the promise is pending and the running text is the
    latest non-empty text (replacement, not concatenation);
  \<^item> the first line that is final finalizes with the latest non-empty text up to and
    including it, provided there is one, whatever lines follow in the chunk;
  \<^item> if there is none, that line does not finalize and reading goes on with the lines
    that follow;
  \<^item> the listener, called chunk by chunk, reads the complete lines of the concatenated
    chunks, however the stream is cut into chunks;
  \<^item> the three fragments \<^verbatim>\<open>He\<close>, \<^verbatim>\<open>Hello\<close> (both partial) and \<^verbatim>\<open>Hello world\<close> (final)
    finalize to exactly \<^verbatim>\<open>Hello world\<close>.
\<close>

theorem aggregator_replaces_and_finalizes:
  "(list_all (\<lambda>l. \<not> lineFinal l) pre \<longrightarrow>
       outcome (processLines initialStreamState pre) = None
     \<and> fullResponse (processLines initialStreamState pre) = latestText [] pre)
   \<and> (list_all (\<lambda>l. \<not> lineFinal l) pre \<and> lineFinal l \<and> latestText [] (pre @ [l]) \<noteq> [] \<longrightarrow>
       outcome (processLines initialStreamState (pre @ l # post))
         = Some (Resolved (latestText [] (pre @ [l]))))
   \<and> (list_all (\<lambda>l. \<not> lineFinal l) pre \<and> lineFinal l \<and> latestText [] (pre @ [l]) = [] \<longrightarrow>
       processLines initialStreamState (pre @ l # post) = processLines initialStreamState post)
   \<and> outcome (runSignals decode initialStreamState (map (\<lambda>c. FromStream (Data c)) chunks))
       = outcome (processLines initialStreamState (completeLines decode (concat chunks)))
   \<and> outcome (processLines initialStreamState
        [Event (textEvent (Some True) ''He''), Event (textEvent (Some True) ''Hello''),
         Event (textEvent (Some False) ''Hello world'')]) = Some (Resolved ''Hello world'')"
proof -
  have i: "fullResponse initialStreamState = []" "outcome initialStreamState = None"
    by (simp_all add: initialStreamState_def)
  have 1: "outcome (processLines initialStreamState pre) = None
     \<and> fullResponse (processLines initialStreamState pre) = latestText [] pre"
    if "list_all (\<lambda>l. \<not> lineFinal l) pre"
    using processLines_partial [OF that, of initialStreamState] i by simp
  have 2: "outcome (processLines initialStreamState (pre @ l # post))
         = Some (Resolved (latestText [] (pre @ [l])))"
    if "list_all (\<lambda>l. \<not> lineFinal l) pre" "lineFinal l" "latestText [] (pre @ [l]) \<noteq> []"
    using processLines_finalizes [of pre l initialStreamState post] that i by simp
  have 3: "processLines initialStreamState (pre @ l # post) = processLines initialStreamState post"
    if "list_all (\<lambda>l. \<not> lineFinal l) pre" "lineFinal l" "latestText [] (pre @ [l]) = []"
    using processLines_silent_final [of pre l initialStreamState post] that i by simp
  have 4: "outcome (processLines initialStreamState
        [Event (textEvent (Some True) ''He''), Event (textEvent (Some True) ''Hello''),
         Event (textEvent (Some False) ''Hello world'')]) = Some (Resolved ''Hello world'')"
    by code_simp
  note 5 = chunks_outcome [of decode chunks]
  from 1 2 3 4 5 show ?thesis by blast
qed

theorem aggregator_replaces_and_finalizes_witness:
  "list_all (\<lambda>l. \<not> lineFinal l)
      [Event (textEvent (Some True) ''He''), Event (textEvent (Some True) ''Hello'')]
   \<and> lineFinal (Event (textEvent (Some False) ''Hello world''))
   \<and> latestText [] ([Event (textEvent (Some True) ''He''), Event (textEvent (Some True) ''Hello'')]
                      @ [Event (textEvent (Some False) ''Hello world'')]) = ''Hello world''
   \<and> outcome (processLines initialStreamState
        ([Event (textEvent (Some True) ''He''), Event (textEvent (Some True) ''Hello'')]
          @ Event (textEvent (Some False) ''Hello world'')
          # [Event (textEvent (Some True) ''never read'')])) = Some (Resolved ''Hello world'')"
proof -
  let ?pre = "[Event (textEvent (Some True) ''He''), Event (textEvent (Some True) ''Hello'')]"
  let ?l = "Event (textEvent (Some False) ''Hello world'')"
  have a: "list_all (\<lambda>l. \<not> lineFinal l) ?pre" by (simp add: lineFinal_def textEvent_def)
  have b: "lineFinal ?l" by (simp add: lineFinal_def textEvent_def)
  have c: "latestText [] (?pre @ [?l]) = ''Hello world''" by code_simp
  from aggregator_replaces_and_finalizes
      [of ?pre ?l "[Event (textEvent (Some True) ''never read'')]" decodeDemo "[]"]
    a b c
  show ?thesis by simp
qed

text \<open>
  Claim C8. For every stream and every decoder the promise of \<^verbatim>\<open>handleStreamingResponse\<close>
  settles, and never resolves to the empty string. The timer is set to twice the request
  timeout. When the timer's callback runs while the promise is pending, the promise
  resolves to the running text if a text fragment was seen (\<open>hasStarted\<close>, which holds
  exactly when the running text is non-empty), otherwise to the fixed timed-out message;
  when the stream's end comes while the promise is pending, it resolves to the running
  text if one was seen, otherwise to the fixed message of an incomplete response.
\<close>

theorem streamed_turn_never_empty:
  "(\<exists>r. handleStreamingResponse decode t evs = Some r)
   \<and> handleStreamingResponse decode t evs \<noteq> Some (Resolved [])
   \<and> streamingTimeoutDelay t = 2 * t
   \<and> (schedule (streamingTimeoutDelay t) evs = a @ TimerFired # b
        \<and> outcome (runSignals decode initialStreamState a) = None \<longrightarrow>
      handleStreamingResponse decode t evs =
        Some (Resolved (if hasStarted (runSignals decode initialStreamState a)
                        then fullResponse (runSignals decode initialStreamState a)
                        else ''Response timed out. Please try again with a shorter message.'')))
   \<and> (schedule (streamingTimeoutDelay t) evs = a @ FromStream End # b
        \<and> outcome (runSignals decode initialStreamState a) = None \<longrightarrow>
      handleStreamingResponse decode t evs =
        Some (Resolved (if hasStarted (runSignals decode initialStreamState a)
                        then fullResponse (runSignals decode initialStreamState a)
                        else ''I received your message, but the response was incomplete. Please try again.'')))
   \<and> (hasStarted (runSignals decode initialStreamState a)
        \<longleftrightarrow> fullResponse (runSignals decode initialStreamState a) \<noteq> [])"
proof -
  have inv: "streamInv (runSignals decode initialStreamState a)"
    by (rule runSignals_inv [OF initial_inv])
  show ?thesis
    using always_settles [of decode t evs] never_empty [of decode t evs]
      timer_while_pending [of t evs a b decode] end_while_pending [of t evs a b decode] inv
    by (simp add: streamingTimeoutDelay_def streamInv_def timedOutMessage_def incompleteMessage_def)
qed

theorem streamed_turn_never_empty_witness:
  "schedule (streamingTimeoutDelay 30000) [(10, Data ''data: P:partial answer\<newline>'')]
     = [FromStream (Data ''data: P:partial answer\<newline>'')] @ TimerFired # []
   \<and> outcome (runSignals decodeDemo initialStreamState
                [FromStream (Data ''data: P:partial answer\<newline>'')]) = None
   \<and> handleStreamingResponse decodeDemo 30000 [(10, Data ''data: P:partial answer\<newline>'')]
       = Some (Resolved ''partial answer'')
   \<and> schedule (streamingTimeoutDelay 30000) [(10, Data ''data: \<newline>''), (20, End)]
       = [FromStream (Data ''data: \<newline>'')] @ FromStream End # [TimerFired]
   \<and> handleStreamingResponse decodeDemo 30000 [(10, Data ''data: \<newline>''), (20, End)]
       = Some (Resolved ''I received your message, but the response was incomplete. Please try again.'')"
proof -
  let ?e1 = "[(10::nat, Data ''data: P:partial answer\<newline>'')]"
  let ?a1 = "[FromStream (Data ''data: P:partial answer\<newline>'')]"
  have s1: "schedule (streamingTimeoutDelay 30000) ?e1 = ?a1 @ TimerFired # []"
    by (simp add: schedule_def streamingTimeoutDelay_def)
  have o1: "outcome (runSignals decodeDemo initialStreamState ?a1) = None" by code_simp
  have h1: "hasStarted (runSignals decodeDemo initialStreamState ?a1)" by code_simp
  have f1: "fullResponse (runSignals decodeDemo initialStreamState ?a1) = ''partial answer''"
    by code_simp
  let ?e2 = "[(10::nat, Data ''data: \<newline>''), (20, End)]"
  let ?a2 = "[FromStream (Data ''data: \<newline>'')]"
  have s2: "schedule (streamingTimeoutDelay 30000) ?e2 = ?a2 @ FromStream End # [TimerFired]"
    by (simp add: schedule_def streamingTimeoutDelay_def)
  have o2: "outcome (runSignals decodeDemo initialStreamState ?a2) = None" by code_simp
  have h2: "\<not> hasStarted (runSignals decodeDemo initialStreamState ?a2)" by code_simp
  from streamed_turn_never_empty [of decodeDemo 30000 ?e1 ?a1 "[]"] s1 o1 h1 f1
  have r1: "handleStreamingResponse decodeDemo 30000 ?e1 = Some (Resolved ''partial answer'')"
    by simp
  from streamed_turn_never_empty [of decodeDemo 30000 ?e2 ?a2 "[TimerFired]"] s2 o2 h2
  have r2: "handleStreamingResponse decodeDemo 30000 ?e2
       = Some (Resolved ''I received your message, but the response was incomplete. Please try again.'')"
    by simp
  from s1 o1 r1 s2 r2 show ?thesis by blast
qed

section \<open>Properties of session resolution and of the dispatcher\<close>

lemma faulted_0: "faulted w u ids 0 = w"
  by (simp add: faulted_def split: option.splits)

lemma sendToADK_fault_step:
  assumes "runReply env (submits w) \<lparr> pl_appName = appName env, pl_userId = u, pl_sessionId = sid,
                       pl_text = msg, pl_media = media, pl_streaming = False \<rparr> = RunStatus 500 stx d"
    and "createReply env (creates w) u = CreateStatus 200 (Some new)" and "new \<noteq> []"
  shows "sendToADK (Suc fuel) env w msg sid u jid media =
           sendToADK fuel env (faulted w u (\<lambda>_. new) 1) msg new u jid media"
proof -
  have "faulted w u (\<lambda>_. new) 1 =
        w\<lparr>submits := submits w + 1, creates := creates w + 1,
           activeSessions := (case activeSessions w u of None \<Rightarrow> activeSessions w
              | Some session \<Rightarrow> (activeSessions w)(u \<mapsto> session\<lparr>s_sessionId := new\<rparr>))\<rparr>"
    by (simp add: faulted_def split: option.splits)
  then show ?thesis
    using assms
    by (simp add: createADKSession_def truthy_def Let_def split: option.splits)
qed

lemma faulted_Suc:
  "faulted (faulted w u (\<lambda>_. ids 0) 1) u (\<lambda>i. ids (Suc i)) k = faulted w u ids (Suc k)"
  by (cases k) (auto simp: faulted_def split: option.splits)

lemma sendToADK_unroll:
  assumes "\<forall>i<k. \<forall>p. \<exists>stx d. runReply env (submits w + i) p = RunStatus 500 stx d"
    and "\<forall>i<k. createReply env (creates w + i) u = CreateStatus 200 (Some (ids i)) \<and> ids i \<noteq> []"
  shows "sendToADK (k + fuel) env w msg sid u jid media =
           sendToADK fuel env (faulted w u ids k) msg (sessionAfter sid ids k) u jid media"
  using assms
proof (induction k arbitrary: w sid ids)
  case 0
  show ?case by (simp add: faulted_0 sessionAfter_def)
next
  case (Suc k)
  let ?p = "\<lparr> pl_appName = appName env, pl_userId = u, pl_sessionId = sid,
                       pl_text = msg, pl_media = media, pl_streaming = False \<rparr>"
  from Suc.prems(1) obtain stx d where f0: "runReply env (submits w) ?p = RunStatus 500 stx d"
    by (metis add.right_neutral zero_less_Suc)
  from Suc.prems(2) have c0: "createReply env (creates w) u = CreateStatus 200 (Some (ids 0))"
    "ids 0 \<noteq> []"
    by (metis add.right_neutral zero_less_Suc)+
  let ?w1 = "faulted w u (\<lambda>_. ids 0) 1"
  have sw: "submits ?w1 = submits w + 1" "creates ?w1 = creates w + 1"
    by (simp_all add: faulted_def)
  have step: "sendToADK (Suc k + fuel) env w msg sid u jid media =
                sendToADK (k + fuel) env ?w1 msg (ids 0) u jid media"
    using sendToADK_fault_step [OF f0 c0, of "k + fuel" jid] by simp
  have f': "\<forall>i<k. \<forall>p. \<exists>stx d. runReply env (submits ?w1 + i) p = RunStatus 500 stx d"
    using Suc.prems(1) unfolding sw by (metis Suc_less_eq add_Suc_right add_Suc_shift plus_1_eq_Suc add.commute)
  have c': "\<forall>i<k. createReply env (creates ?w1 + i) u = CreateStatus 200 (Some (ids (Suc i))) \<and> ids (Suc i) \<noteq> []"
    using Suc.prems(2) unfolding sw by (metis Suc_less_eq add_Suc_right add_Suc_shift plus_1_eq_Suc add.commute)
  have sa: "sessionAfter (ids 0) (\<lambda>i. ids (Suc i)) k = sessionAfter sid ids (Suc k)"
    by (cases k) (simp_all add: sessionAfter_def)
  from Suc.IH [OF f' c', of "ids 0"] show ?case
    unfolding step faulted_Suc sa .
qed

lemma sendToADK_diverges:
  assumes "\<forall>i p. \<exists>stx d. runReply env i p = RunStatus 500 stx d"
    and "\<forall>i. \<exists>new. createReply env i u = CreateStatus 200 (Some new) \<and> new \<noteq> []"
  shows "sendToADK fuel env w msg sid u jid media = None"
proof (induction fuel arbitrary: w sid)
  case 0
  show ?case by simp
next
  case (Suc fuel)
  let ?p = "\<lparr> pl_appName = appName env, pl_userId = u, pl_sessionId = sid,
                       pl_text = msg, pl_media = media, pl_streaming = False \<rparr>"
  from assms(1) obtain stx d where f0: "runReply env (submits w) ?p = RunStatus 500 stx d" by blast
  from assms(2) obtain new where c0: "createReply env (creates w) u = CreateStatus 200 (Some new)"
    "new \<noteq> []" by blast
  show ?case
    unfolding sendToADK_fault_step [OF f0 c0] by (rule Suc.IH)
qed

lemma sendToADK_keeps_store:
  "sendToADK fuel env w msg sid u jid media = Some (r, w') \<Longrightarrow> sessionStore w' = sessionStore w"
proof (induction fuel arbitrary: w sid)
  case 0
  then show ?case by simp
next
  case (Suc fuel)
  show ?case
    using Suc.prems
    by (auto simp: Let_def createADKSession_def
        split: run_reply.splits if_splits prod.splits option.splits create_reply.splits sum.splits
        dest!: Suc.IH)
qed

lemma getUserSession_after_store:
  assumes "reachable ss"
  shows "getUserSession (snd (storeUserSession ss now u sid ov)) u =
           Some \<lparr> si_userId = (case ov_userId ov of Some v \<Rightarrow> v | None \<Rightarrow> u),
                  si_sessionId = (case ov_sessionId ov of Some v \<Rightarrow> v | None \<Rightarrow> sid),
                  si_createdAt = (case ov_createdAt ov of Some v \<Rightarrow> v | None \<Rightarrow> now),
                  si_lastActivity = (case ov_lastActivity ov of Some v \<Rightarrow> v | None \<Rightarrow> now),
                  si_isNewUser = ov_isNewUser ov,
                  si_firstMessage = ov_firstMessage ov \<rparr>"
  using assms by (simp add: getUserSession_def storeUserSession_def Let_def)

lemma updateUserActivity_keeps_session:
  assumes "getUserSession ss u = Some d"
  shows "map_option si_sessionId (getUserSession (updateUserActivity ss now u) u) = Some (si_sessionId d)"
proof -
  have r: "reachable ss" using assms by (simp add: getUserSession_def split: if_splits)
  show ?thesis
    unfolding updateUserActivity_def using assms
    by (simp add: getUserSession_after_store [OF r] overrides_of_info_def)
qed




text \<open>
  Claim C1 says that the replace-session-and-retry recovery happens at most once per turn.
  \<^verbatim>\<open>sendToADK\<close> has no retry budget. With a backend that answers 500 twice and then 200,
  one turn creates two sessions, submits three times and returns the backend's answer.
\<close>

theorem two_faults_two_replacements_counterexample:
  "map_option (\<lambda>(r, w). (r, creates w, submits w, map_option s_sessionId (activeSessions w user0)))
     (sendToADK 10 (backendFaulting 2) worldCached ''Hi'' ''session-1'' user0 user0 [])
   = Some (TextReply ''answer'', 2, 3, Some ''session-3'')"
  by code_simp

text \<open>
  Claim C1 as amended. Every 500 answer is followed by one session creation and, if a
  session is issued, by a retry with it. After \<open>k\<close> consecutive faults, each answered by a
  new session: \<open>k\<close> sessions have been created, the in-memory entry of the user (if any)
  holds the last one, and the session bucket is untouched; if the next answer is 200 the
  turn returns the handled response; if it is 500 and no session can be created the turn
  returns the fixed service-issues message. Enough fuel (\<open>k + 1\<close> requests) always gives
  the result. With a backend that always answers 500 and always issues a session the
  function does not return, whatever the fuel.
\<close>

theorem fault_recovery_one_replacement_per_fault:
  assumes "\<forall>i<k. \<forall>p. \<exists>stx d. runReply env (submits w + i) p = RunStatus 500 stx d"
    and "\<forall>i<k. createReply env (creates w + i) u = CreateStatus 200 (Some (ids i)) \<and> ids i \<noteq> []"
  shows "((\<forall>p. runReply env (submits w + k) p = RunStatus 200 stx body)
            \<and> handleResponse env body jid (sessionAfter sid ids k) = Inr r \<longrightarrow>
          sendToADK (k + Suc fuel) env w msg sid u jid media
            = Some (r, (faulted w u ids k)\<lparr>submits := submits w + k + 1\<rparr>))
       \<and> ((\<forall>p. \<exists>stx d. runReply env (submits w + k) p = RunStatus 500 stx d)
            \<and> (case createReply env (creates w + k) u of
                  CreateThrows \<Rightarrow> True
                | CreateStatus status ident \<Rightarrow> status \<noteq> 200 \<or> \<not> truthy ident) \<longrightarrow>
          sendToADK (k + Suc fuel) env w msg sid u jid media
            = Some (TextReply serviceIssuesMessage,
                    (faulted w u ids k)\<lparr>submits := submits w + k + 1, creates := creates w + k + 1\<rparr>))
       \<and> ((\<forall>p. runReply env (submits w + k) p = RunThrows e) \<longrightarrow>
          sendToADK (k + Suc fuel) env w msg sid u jid media
            = Some (TextReply (catchMessage e), (faulted w u ids k)\<lparr>submits := submits w + k + 1\<rparr>))
       \<and> ((\<forall>p. runReply env (submits w + k) p = RunStatus status stx body)
            \<and> 200 < status \<and> status < 600 \<and> status \<noteq> 500 \<longrightarrow>
          sendToADK (k + Suc fuel) env w msg sid u jid media
            = Some (TextReply unexpectedStatusMessage,
                    (faulted w u ids k)\<lparr>submits := submits w + k + 1\<rparr>))
       \<and> creates (faulted w u ids k) = creates w + k
       \<and> sessionStore (faulted w u ids k) = sessionStore w
       \<and> (0 < k \<and> activeSessions w u \<noteq> None \<longrightarrow>
            map_option s_sessionId (activeSessions (faulted w u ids k) u) = Some (ids (k - 1)))
       \<and> ((\<forall>i p. \<exists>stx d. runReply env i p = RunStatus 500 stx d)
            \<and> (\<forall>i. \<exists>new. createReply env i u = CreateStatus 200 (Some new) \<and> new \<noteq> []) \<longrightarrow>
          (\<forall>n. sendToADK n env w msg sid u jid media = None))"
proof -
  note un = sendToADK_unroll [OF assms, of "Suc fuel" msg sid jid media]
  let ?wk = "faulted w u ids k"
  have sk: "submits ?wk = submits w + k" "creates ?wk = creates w + k"
    "sessionStore ?wk = sessionStore w"
    by (simp_all add: faulted_def)
  have 1: "sendToADK (k + Suc fuel) env w msg sid u jid media
            = Some (r, ?wk\<lparr>submits := submits w + k + 1\<rparr>)"
    if "\<forall>p. runReply env (submits w + k) p = RunStatus 200 stx body"
      "handleResponse env body jid (sessionAfter sid ids k) = Inr r"
    unfolding un using that sk by (simp add: Let_def)
  have 2: "sendToADK (k + Suc fuel) env w msg sid u jid media
            = Some (TextReply serviceIssuesMessage,
                    ?wk\<lparr>submits := submits w + k + 1, creates := creates w + k + 1\<rparr>)"
    if f: "\<forall>p. \<exists>stx d. runReply env (submits w + k) p = RunStatus 500 stx d"
      and c: "case createReply env (creates w + k) u of
                  CreateThrows \<Rightarrow> True
                | CreateStatus status ident \<Rightarrow> status \<noteq> 200 \<or> \<not> truthy ident"
  proof -
    let ?p = "\<lparr> pl_appName = appName env, pl_userId = u, pl_sessionId = sessionAfter sid ids k,
                 pl_text = msg, pl_media = media, pl_streaming = False \<rparr>"
    from f obtain stx d where "runReply env (submits w + k) ?p = RunStatus 500 stx d" by blast
    then show ?thesis
      unfolding un using c sk
      by (auto simp: Let_def createADKSession_def split: create_reply.splits)
  qed
  have 3: "map_option s_sessionId (activeSessions ?wk u) = Some (ids (k - 1))"
    if "0 < k" "activeSessions w u \<noteq> None"
    using that by (auto simp: faulted_def)
  have 5: "sendToADK (k + Suc fuel) env w msg sid u jid media
            = Some (TextReply (catchMessage e), ?wk\<lparr>submits := submits w + k + 1\<rparr>)"
    if "\<forall>p. runReply env (submits w + k) p = RunThrows e"
    unfolding un using that sk by (simp add: Let_def)
  have 6: "sendToADK (k + Suc fuel) env w msg sid u jid media
            = Some (TextReply unexpectedStatusMessage, ?wk\<lparr>submits := submits w + k + 1\<rparr>)"
    if "\<forall>p. runReply env (submits w + k) p = RunStatus status stx body"
      "200 < status" "status < 600" "status \<noteq> 500"
    unfolding un using that sk by (simp add: Let_def)
  have 4: "\<forall>n. sendToADK n env w msg sid u jid media = None"
    if "\<forall>i p. \<exists>stx d. runReply env i p = RunStatus 500 stx d"
      "\<forall>i. \<exists>new. createReply env i u = CreateStatus 200 (Some new) \<and> new \<noteq> []"
    using sendToADK_diverges [OF that] by blast
  from 1 2 3 4 5 6 sk show ?thesis by blast
qed

theorem fault_recovery_one_replacement_per_fault_witness:
  "(\<forall>p. runReply (backendFaulting 2) (submits worldCached + 0) p
           = RunStatus 500 ''Internal Server Error'' ())
   \<and> (\<forall>p. runReply (backendFaulting 2) (submits worldCached + 1) p
           = RunStatus 500 ''Internal Server Error'' ())
   \<and> (\<forall>p. runReply (backendFaulting 2) (submits worldCached + 2) p = RunStatus 200 ''OK'' ())
   \<and> sendToADK (2 + Suc 0) (backendFaulting 2) worldCached ''Hi'' ''session-1'' user0 user0 []
       = Some (TextReply ''answer'',
               (faulted worldCached user0 (\<lambda>i. ''session-'' @ show_nat (i + 2)) 2)
                 \<lparr>submits := submits worldCached + 2 + 1\<rparr>)
   \<and> creates (faulted worldCached user0 (\<lambda>i. ''session-'' @ show_nat (i + 2)) 2) = 2"
proof -
  let ?ids = "\<lambda>i. ''session-'' @ show_nat (i + 2)"
  have a: "\<forall>i<2. \<forall>p. \<exists>stx d. runReply (backendFaulting 2) (submits worldCached + i) p = RunStatus 500 stx d"
    by (simp add: backendFaulting_def worldCached_def)
  have b: "\<forall>i<2. createReply (backendFaulting 2) (creates worldCached + i) user0
              = CreateStatus 200 (Some (?ids i)) \<and> ?ids i \<noteq> []"
    by (simp add: backendFaulting_def worldCached_def)
  have c: "\<forall>p. runReply (backendFaulting 2) (submits worldCached + 2) p = RunStatus 200 ''OK'' ()"
    by (simp add: backendFaulting_def worldCached_def)
  have d: "handleResponse (backendFaulting 2) () user0 (sessionAfter ''session-1'' ?ids 2)
             = Inr (TextReply ''answer'')"
    by (simp add: backendFaulting_def)
  have e: "creates worldCached = 0" by (simp add: worldCached_def)
  note th = fault_recovery_one_replacement_per_fault [OF a b,
      of "''OK''" "()" user0 "''session-1''" "TextReply ''answer''" 0 "''Hi''" "[]" OtherError 200]
  have f: "\<forall>p. runReply (backendFaulting 2) (submits worldCached + 0) p
           = RunStatus 500 ''Internal Server Error'' ()"
    "\<forall>p. runReply (backendFaulting 2) (submits worldCached + 1) p
           = RunStatus 500 ''Internal Server Error'' ()"
    by (simp_all add: backendFaulting_def worldCached_def)
  from th c d e have
    "sendToADK (2 + Suc 0) (backendFaulting 2) worldCached ''Hi'' ''session-1'' user0 user0 []
       = Some (TextReply ''answer'',
               (faulted worldCached user0 ?ids 2)\<lparr>submits := submits worldCached + 2 + 1\<rparr>)"
    "creates (faulted worldCached user0 ?ids 2) = 2"
    by simp_all
  with f c show ?thesis by blast
qed

text \<open>
  Claim C5 says that a session replacement after a fault overwrites the durable mapping.
  \<^verbatim>\<open>sendToADK\<close> updates \<^verbatim>\<open>activeSessions\<close> only; it never writes the session bucket
  (\<open>sendToADK_keeps_store\<close>). Evaluated on the bot that holds \<^verbatim>\<open>session-1\<close> and a backend
  that faults once: after the turn the in-memory entry holds \<^verbatim>\<open>session-2\<close>, the session
  bucket still holds \<^verbatim>\<open>session-1\<close>, and a resolution after a restart (empty
  \<^verbatim>\<open>activeSessions\<close>) returns \<^verbatim>\<open>session-1\<close>.
\<close>

theorem fault_replacement_not_persisted:
  "map_option (\<lambda>(r, w). (r, map_option s_sessionId (activeSessions w user0),
                           map_option si_sessionId (getUserSession (sessionStore w) user0),
                           map_option s_sessionId
                             (fst (resolveSession (backendFaulting 1)
                                     (w\<lparr>activeSessions := Map.empty\<rparr>) 5000 user0 (Some ''Hi'')))))
     (sendToADK 10 (backendFaulting 1) worldCached ''Hi'' ''session-1'' user0 user0 [])
   = Some (TextReply ''answer'', Some ''session-2'', Some ''session-1'', Some ''session-1'')"
  by code_simp

section \<open>Properties of the media normalizer\<close>

text \<open>The part of claim C9 that holds. On a store that accepts the write: an attachment whose MIME type
  is neither the spreadsheet nor the word-processor type is saved and returned with its
  MIME type, file name and bytes unchanged and without a \<open>converted\<close> flag; a spreadsheet
  becomes \<^verbatim>\<open>text/plain\<close> with \<open>converted = true\<close> and \<open>originalFormat = XLSX\<close>, its text
  being, for each sheet in workbook order, a header line with the sheet's number and name
  followed by the sheet's CSV; a word-processor document becomes \<^verbatim>\<open>text/plain\<close> with
  \<open>converted = true\<close> and \<open>originalFormat = DOCX\<close>. The file name of a converted attachment
  is \<^verbatim>\<open>filename.replace('.xlsx', '.txt')\<close> (or \<^verbatim>\<open>.docx\<close>): the first occurrence of the
  lower-case extension is replaced.\<close>

lemma sheetsText_headers:
  "sheetsText i sheets =
     concat (map (\<lambda>(k, sheetName, csvData). sheetHeader k sheetName @ csvData @ [CHR 0x0A])
                 (zip [i ..< i + length sheets] sheets))"
proof (induction sheets arbitrary: i)
  case Nil
  show ?case by simp
next
  case (Cons sh sheets)
  obtain n csv where sh: "sh = (n, csv)" by (cases sh)
  have "[i ..< i + Suc (length sheets)] = i # [Suc i ..< i + Suc (length sheets)]"
    by (rule upt_conv_Cons) simp
  then show ?case using Cons [of "Suc i"] sh by simp
qed

lemma savedAs_online:
  assumes "objectsOnline b"
  shows "\<exists>v b'. savedAs b now app u fn mime p sid conv orig =
           Inr (\<lparr> mr_filename = fn, mr_mimeType = mime, mr_version = v, mr_part = p,
                  mr_converted = conv, mr_originalFormat = orig \<rparr>, b')"
proof -
  from assms obtain v b' where "saveArtifact b now app u fn p sid = Inr (v, b')"
    by (simp add: saveArtifact_def Let_def file_save_def)
  then show ?thesis by (simp add: savedAs_def)
qed

lemma normalizer_policy:
  assumes "objectsOnline b"
    and "mime = resolveMimeType lib msg buf" and "fn = resolveFilename msg uuid mime"
  shows "(mime \<noteq> xlsxMime \<and> mime \<noteq> docxMime \<longrightarrow>
           (\<exists>v b'. processMediaMessage lib b now app msg (Some buf) uuid u sid =
              Inr (\<lparr> mr_filename = fn, mr_mimeType = mime, mr_version = v,
                     mr_part = \<lparr> p_mimeType = Some mime, p_data = Some (Buffer buf),
                                 p_inline_data = Some (Some mime, Some (Text (toBase64 lib buf))) \<rparr>,
                     mr_converted = None, mr_originalFormat = None \<rparr>, b')))
       \<and> (mime = xlsxMime \<and> readWorkbook lib buf = Some sheets \<longrightarrow>
           (\<exists>v b'. processMediaMessage lib b now app msg (Some buf) uuid u sid =
              Inr (\<lparr> mr_filename = replace_first fn ''.xlsx'' ''.txt'', mr_mimeType = ''text/plain'',
                     mr_version = v, mr_part = textPart lib (sheetsText 0 sheets),
                     mr_converted = Some True, mr_originalFormat = Some ''XLSX'' \<rparr>, b')))
       \<and> (mime = docxMime \<and> extractRawText lib buf = Some t \<longrightarrow>
           (\<exists>v b'. processMediaMessage lib b now app msg (Some buf) uuid u sid =
              Inr (\<lparr> mr_filename = replace_first fn ''.docx'' ''.txt'', mr_mimeType = ''text/plain'',
                     mr_version = v, mr_part = textPart lib t,
                     mr_converted = Some True, mr_originalFormat = Some ''DOCX'' \<rparr>, b')))"
proof -
  have ne: "xlsxMime \<noteq> docxMime" by (simp add: xlsxMime_def docxMime_def)
  show ?thesis
    using savedAs_online [OF assms(1)] assms(2,3) ne
    by (auto simp: processMediaMessage_def Let_def convertXlsxToText_def convertDocxToText_def)
qed

text \<open>
  Claim C9 says that the extension of a converted attachment's file name is rewritten to
  \<^verbatim>\<open>.txt\<close>. The code's comment says the same (\<^verbatim>\<open>// Change extension to .txt\<close>), but
  \<^verbatim>\<open>String.replace\<close> with a string pattern replaces the first occurrence of the lower-case
  \<^verbatim>\<open>.xlsx\<close> or \<^verbatim>\<open>.docx\<close> only. Evaluated: a spreadsheet named \<^verbatim>\<open>REPORT.XLSX\<close> is converted to
  text and keeps its name; \<^verbatim>\<open>q1.xlsx.final.xlsx\<close> becomes \<^verbatim>\<open>q1.txt.final.xlsx\<close>; a document
  named \<^verbatim>\<open>Letter.DOCX\<close> keeps its name.
\<close>

theorem uppercase_extension_not_rewritten:
  "summary (processMediaMessage libDemo store0 ''t'' ''app''
              (documentMessage xlsxMime ''REPORT.XLSX'') (Some ''bytes'') ''uuid'' ''u1'' (Some ''s1''))
     = Inr (''REPORT.XLSX'', ''text/plain'', Some True, Some ''XLSX'',
            Some (Buffer (sheetsText 0 [(''Sales'', ''a,b''), (''Costs'', ''c,d'')])))
   \<and> summary (processMediaMessage libDemo store0 ''t'' ''app''
              (documentMessage xlsxMime ''q1.xlsx.final.xlsx'') (Some ''bytes'') ''uuid'' ''u1'' (Some ''s1''))
     = Inr (''q1.txt.final.xlsx'', ''text/plain'', Some True, Some ''XLSX'',
            Some (Buffer (sheetsText 0 [(''Sales'', ''a,b''), (''Costs'', ''c,d'')])))
   \<and> summary (processMediaMessage libDemo store0 ''t'' ''app''
              (documentMessage docxMime ''Letter.DOCX'') (Some ''bytes'') ''uuid'' ''u1'' (Some ''s1''))
     = Inr (''Letter.DOCX'', ''text/plain'', Some True, Some ''DOCX'', Some (Buffer ''plain words''))"
  by code_simp

end
